theory Spec2Isabelle
  imports Main "HOL-Library.AList"
begin

section \<open>JavaScript values\<close>

text \<open>
  The values that reach the worker are the results of \<^verbatim>\<open>JSON.parse\<close>, extended by the two
  values the code itself can create: \<^verbatim>\<open>undefined\<close> (a missing property or argument) and
  \<^verbatim>\<open>NaN\<close> (a number added to \<^verbatim>\<open>undefined\<close>). Numbers are the integers: the code does no
  arithmetic except the \<^verbatim>\<open>+\<close> of \<^verbatim>\<open>appendSuffix\<close>, and the decimal rendering below is the one
  of JavaScript for integers of magnitude below \<open>10^21\<close>. An object is the list of its own
  properties; \<^verbatim>\<open>JSON.parse\<close> produces distinct keys.
\<close>

datatype jsval =
    JUndefined
  | JNull
  | JBool bool
  | JNum int
  | JNaN
  | JStr string
  | JArr "jsval list"
  | JObj "(string \<times> jsval) list"

text \<open>Property read \<^verbatim>\<open>v.k\<close> for a name \<open>k\<close> that no prototype defines.\<close>

fun field :: "string \<Rightarrow> jsval \<Rightarrow> jsval" where
  "field k (JObj kvs) = (case map_of kvs k of Some v \<Rightarrow> v | None \<Rightarrow> JUndefined)"
| "field k v = JUndefined"

text \<open>\<^verbatim>\<open>k in v\<close> for a value \<open>v\<close> with \<^verbatim>\<open>typeof v === "object"\<close>, again for a name that no
  prototype defines.\<close>

fun has_own :: "string \<Rightarrow> jsval \<Rightarrow> bool" where
  "has_own k (JObj kvs) = (map_of kvs k \<noteq> None)"
| "has_own k v = False"

fun is_object :: "jsval \<Rightarrow> bool" where
  "is_object (JArr xs) = True"
| "is_object (JObj kvs) = True"
| "is_object v = False"

subsection \<open>Conversion to string\<close>

function digits :: "nat \<Rightarrow> string" where
  "digits n = (if n < 10 then [''0123456789'' ! n]
               else digits (n div 10) @ [''0123456789'' ! (n mod 10)])"
  by pat_completeness auto
termination
  by (relation "measure (\<lambda>n. n)") auto

declare digits.simps [simp del]

definition show_int :: "int \<Rightarrow> string" where
  "show_int i = (if i < 0 then ''-'' @ digits (nat (- i)) else digits (nat i))"

text \<open>The message of the \<^verbatim>\<open>TypeError\<close> that V8 raises when neither \<^verbatim>\<open>toString\<close> nor
  \<^verbatim>\<open>valueOf\<close> of an object yields a primitive.\<close>

definition to_primitive_error :: string where
  "to_primitive_error = ''Cannot convert object to primitive value''"

fun join_comma :: "string list \<Rightarrow> string" where
  "join_comma [] = []"
| "join_comma [s] = s"
| "join_comma (s # t # ss) = s @ '','' @ join_comma (t # ss)"

text \<open>The strings of the elements, or the error of the first element whose conversion
  throws.\<close>

fun collect :: "(string + string) list \<Rightarrow> string + string list" where
  "collect (Inl e # rest) = Inl e"
| "collect (Inr s # rest) = (case collect rest of Inl e \<Rightarrow> Inl e | Inr ss \<Rightarrow> Inr (s # ss))"
| "collect [] = Inr []"

text \<open>
  \<^verbatim>\<open>ToString\<close>, as a template literal applies it. An array is joined with commas, its
  \<^verbatim>\<open>null\<close> and \<^verbatim>\<open>undefined\<close> elements rendered empty. A parsed object inherits
  \<^verbatim>\<open>Object.prototype.toString\<close> unless it has an own property \<^verbatim>\<open>toString\<close>; that property is
  never callable, \<^verbatim>\<open>valueOf\<close> returns no primitive either, and the conversion throws.
\<close>

fun js_to_string :: "jsval \<Rightarrow> string + string" where
  "js_to_string JUndefined = Inr ''undefined''"
| "js_to_string JNull = Inr ''null''"
| "js_to_string (JBool b) = Inr (if b then ''true'' else ''false'')"
| "js_to_string (JNum i) = Inr (show_int i)"
| "js_to_string JNaN = Inr ''NaN''"
| "js_to_string (JStr s) = Inr s"
| "js_to_string (JArr xs) =
     (case collect (map (\<lambda>x. if x = JNull \<or> x = JUndefined then Inr [] else js_to_string x) xs) of
        Inl e \<Rightarrow> Inl e
      | Inr ss \<Rightarrow> Inr (join_comma ss))"
| "js_to_string (JObj kvs) =
     (if map_of kvs ''toString'' \<noteq> None then Inl to_primitive_error
      else Inr ''[object Object]'')"

text \<open>\<^verbatim>\<open>ToNumber\<close> of a primitive that is not a string; \<open>None\<close> is \<^verbatim>\<open>NaN\<close>.\<close>

fun to_number :: "jsval \<Rightarrow> int option" where
  "to_number JNull = Some 0"
| "to_number (JBool b) = Some (if b then 1 else 0)"
| "to_number (JNum i) = Some i"
| "to_number v = None"

fun is_stringy :: "jsval \<Rightarrow> bool" where
  "is_stringy (JStr s) = True"
| "is_stringy v = is_object v"

text \<open>The operator \<^verbatim>\<open>+\<close>: concatenation as soon as one operand is a string or an object (whose
  primitive is a string), addition of numbers otherwise.\<close>

definition js_add :: "jsval \<Rightarrow> jsval \<Rightarrow> string + jsval" where
  "js_add a b =
     (if is_stringy a \<or> is_stringy b then
        (case js_to_string a of
           Inl e \<Rightarrow> Inl e
         | Inr x \<Rightarrow> (case js_to_string b of Inl e \<Rightarrow> Inl e | Inr y \<Rightarrow> Inr (JStr (x @ y))))
      else
        (case (to_number a, to_number b) of
           (Some x, Some y) \<Rightarrow> Inr (JNum (x + y))
         | _ \<Rightarrow> Inr JNaN))"

section \<open>The worker\<close>

subsection \<open>The table of questions in flight\<close>

text \<open>
  \<^verbatim>\<open>questionsInFlight\<close> is a \<^verbatim>\<open>Map\<close>: a primitive key is found by its value, an object or an
  array only by its identity. Every parsed object is fresh, so an object used as a question
  id is identified by the invocation of the listener that parsed it, and no object read
  from a later frame finds it.
\<close>

datatype key = KPrim jsval | KObj nat

definition own_key :: "nat \<Rightarrow> jsval \<Rightarrow> key" where
  "own_key tid v = (if is_object v then KObj tid else KPrim v)"

text \<open>The promise of an entry: \<^verbatim>\<open>null\<close>, created by a waiting parameter, or resolved by
  \<^verbatim>\<open>finalizeQuestion\<close>. The fields \<^verbatim>\<open>resolve\<close> and \<^verbatim>\<open>reject\<close> are set together with it.\<close>

datatype promise_state = NoPromise | PromisePending | PromiseFulfilled jsval

record entry =
  q_done :: bool
  q_result :: jsval
  q_promise :: promise_state

type_synonym table = "(key \<times> entry) list"

definition new_entry :: entry where
  "new_entry = \<lparr>q_done = False, q_result = JNull, q_promise = NoPromise\<rparr>"

text \<open>\<^verbatim>\<open>get(v)\<close> on such a map, for a value \<open>v\<close> read from a frame.\<close>

definition lookup_ref :: "(key \<times> 'e) list \<Rightarrow> jsval \<Rightarrow> 'e option" where
  "lookup_ref T v = (if is_object v then None else map_of T (KPrim v))"

subsection \<open>Resolving parameters\<close>

text \<open>The state of the promise that one call of \<^verbatim>\<open>maybeResolveParam\<close> returns: fulfilled,
  rejected with the message of the error thrown, or suspended at \<^verbatim>\<open>await q.promise\<close> for the
  entry under the given key.\<close>

datatype param_promise = Fulfilled jsval | Rejected string | Pending key

definition is_reference :: "jsval \<Rightarrow> bool" where
  "is_reference param = has_own ''resultOf'' param"

definition maybeResolveParam :: "table \<Rightarrow> jsval \<Rightarrow> param_promise \<times> table" where
  "maybeResolveParam T param =
     (if is_reference param then
        (let refId = field ''resultOf'' param in
         case js_to_string refId of
           Inl e \<Rightarrow> (Rejected e, T)
         | Inr shown \<Rightarrow>
             (case lookup_ref T refId of
                None \<Rightarrow> (Rejected (''Reference to unknown call #'' @ shown), T)
              | Some q \<Rightarrow>
                  if q_done q then (Fulfilled (q_result q), T)
                  else (case q_promise q of
                          NoPromise \<Rightarrow>
                            (Pending (KPrim refId),
                             AList.update (KPrim refId) (q\<lparr>q_promise := PromisePending\<rparr>) T)
                        | PromisePending \<Rightarrow> (Pending (KPrim refId), T)
                        | PromiseFulfilled v \<Rightarrow> (Fulfilled v, T))))
      else (Fulfilled param, T))"

text \<open>\<^verbatim>\<open>params.map(p => maybeResolveParam(p))\<close>: the calls run one after the other, each up
  to its first suspension, before the listener itself suspends.\<close>

fun resolve_all :: "table \<Rightarrow> jsval list \<Rightarrow> param_promise list \<times> table" where
  "resolve_all T [] = ([], T)"
| "resolve_all T (p # ps) =
     (let (r, T1) = maybeResolveParam T p;
          (rs, T2) = resolve_all T1 ps
      in (r # rs, T2))"

datatype all_state = AllFulfilled "jsval list" | AllRejected string | AllPending

text \<open>\<^verbatim>\<open>Promise.all\<close>: rejected with the first rejection, which is the one of least index
  since every rejection here stems from an error thrown before the first suspension.\<close>

fun promise_all :: "param_promise list \<Rightarrow> all_state" where
  "promise_all [] = AllFulfilled []"
| "promise_all (Rejected e # rs) = AllRejected e"
| "promise_all (Fulfilled v # rs) =
     (case promise_all rs of AllFulfilled vs \<Rightarrow> AllFulfilled (v # vs) | other \<Rightarrow> other)"
| "promise_all (Pending k # rs) =
     (case promise_all rs of AllRejected e \<Rightarrow> AllRejected e | other \<Rightarrow> AllPending)"

text \<open>The message of the \<^verbatim>\<open>TypeError\<close> of V8 for \<^verbatim>\<open>params.map\<close> when \<^verbatim>\<open>params\<close> is no array.\<close>

definition map_error :: "jsval \<Rightarrow> string" where
  "map_error params =
     (if params = JUndefined then ''Cannot read properties of undefined (reading 'map')''
      else if params = JNull then ''Cannot read properties of null (reading 'map')''
      else ''params.map is not a function'')"

subsection \<open>The methods\<close>

definition arg :: "jsval list \<Rightarrow> nat \<Rightarrow> jsval" where
  "arg args i = (if i < length args then args ! i else JUndefined)"

text \<open>Either method builds its log line, which converts the arguments to strings and may
  throw, then waits for its timer, then returns.\<close>

definition makeGreeting :: "jsval list \<Rightarrow> string + jsval" where
  "makeGreeting args =
     (case js_to_string (arg args 0) of
        Inl e \<Rightarrow> Inl e
      | Inr name \<Rightarrow> Inr (JStr (''Hello, '' @ name @ ''!'')))"

definition appendSuffix :: "jsval list \<Rightarrow> string + jsval" where
  "appendSuffix args =
     (case js_to_string (arg args 0) of
        Inl e \<Rightarrow> Inl e
      | Inr _ \<Rightarrow>
          (case js_to_string (arg args 1) of
             Inl e \<Rightarrow> Inl e
           | Inr _ \<Rightarrow> js_add (arg args 0) (arg args 1)))"

text \<open>
  Step 3 of the listener, up to its next suspension. A known method that gets past its log
  line is suspended at its timer and will return the given value; one that throws there
  returns a rejected promise, and the listener reaches its \<^verbatim>\<open>catch\<close> one turn of the job
  queue later; an unknown method sets \<^verbatim>\<open>error\<close> at once.
\<close>

datatype dispatched = Started jsval | FailedLater string | Failed string

definition is_handler :: "jsval \<Rightarrow> bool" where
  "is_handler method = (method = JStr ''makeGreeting'' \<or> method = JStr ''appendSuffix'')"

definition run_method :: "jsval \<Rightarrow> jsval list \<Rightarrow> dispatched" where
  "run_method method args =
     (if method = JStr ''makeGreeting'' then
        (case makeGreeting args of Inl e \<Rightarrow> FailedLater e | Inr v \<Rightarrow> Started v)
      else if method = JStr ''appendSuffix'' then
        (case appendSuffix args of Inl e \<Rightarrow> FailedLater e | Inr v \<Rightarrow> Started v)
      else
        (case js_to_string method of
           Inl e \<Rightarrow> Failed e
         | Inr m \<Rightarrow> Failed (''Unknown method '' @ [CHR 0x22] @ m @ [CHR 0x22])))"

subsection \<open>Invocations of the message listener\<close>

text \<open>
  Each message event starts one invocation of the asynchronous listener. It is suspended at
  \<^verbatim>\<open>await Promise.all(...)\<close>, or at the \<^verbatim>\<open>await\<close> of a method that waits for its timer and
  will return the given value, or it has ended. The other fields are its local constants;
  an invocation that ends before it reads them has \<^verbatim>\<open>undefined\<close> there.
\<close>

datatype phase = Resolving "param_promise list" | InMethod jsval | Finished

record task =
  t_questionId :: jsval
  t_key :: key
  t_method :: jsval
  t_params :: jsval
  t_phase :: phase

datatype frame = Exception jsval string | Return jsval jsval

text \<open>
  The state of one connection. \<open>sent\<close> lists the objects passed to \<^verbatim>\<open>server.send\<close>, before
  encoding, each with the index of the invocation that sent it; \<open>invoked\<close> lists the calls
  of \<^verbatim>\<open>makeGreeting\<close> and \<^verbatim>\<open>appendSuffix\<close> with their arguments. The indices and \<open>invoked\<close>
  are bookkeeping: the code does not store them.
\<close>

record server =
  questionsInFlight :: table
  tasks :: "task list"
  sent :: "(nat \<times> frame) list"
  invoked :: "(nat \<times> jsval \<times> jsval list) list"

definition init :: server where
  "init = \<lparr>questionsInFlight = [], tasks = [], sent = [], invoked = []\<rparr>"

definition idle :: task where
  "idle = \<lparr>t_questionId = JUndefined, t_key = KPrim JUndefined, t_method = JUndefined,
            t_params = JUndefined, t_phase = Finished\<rparr>"

text \<open>
  An invocation whose \<^verbatim>\<open>Promise.all\<close> is fulfilled goes on with steps 3 and 4. The result
  is the invocation after it, the frames it sends in the same turn, the frames it sends
  one turn later, and the method calls it makes.
\<close>

definition continue_task ::
  "nat \<Rightarrow> task \<Rightarrow> task \<times> (nat \<times> frame) list \<times> (nat \<times> frame) list \<times> (nat \<times> jsval \<times> jsval list) list"
where
  "continue_task tid t =
     (case t_phase t of
        Resolving rs \<Rightarrow>
          (case promise_all rs of
             AllFulfilled args \<Rightarrow>
               (let calls = (if is_handler (t_method t) then [(tid, t_method t, args)] else [])
                in case run_method (t_method t) args of
                     Started v \<Rightarrow> (t\<lparr>t_phase := InMethod v\<rparr>, [], [], calls)
                   | FailedLater e \<Rightarrow>
                       (t\<lparr>t_phase := Finished\<rparr>, [], [(tid, Exception (t_questionId t) e)], calls)
                   | Failed e \<Rightarrow>
                       (t\<lparr>t_phase := Finished\<rparr>, [(tid, Exception (t_questionId t) e)], [], calls))
           | _ \<Rightarrow> (t, [], [], []))
      | _ \<Rightarrow> (t, [], [], []))"

fun continue_all ::
  "nat \<Rightarrow> task list \<Rightarrow>
   task list \<times> (nat \<times> frame) list \<times> (nat \<times> frame) list \<times> (nat \<times> jsval \<times> jsval list) list"
where
  "continue_all n [] = ([], [], [], [])"
| "continue_all n (t # ts) =
     (let (t', now, later, calls) = continue_task n t;
          (ts', nows, laters, callss) = continue_all (Suc n) ts
      in (t' # ts', now @ nows, later @ laters, calls @ callss))"

subsection \<open>A call frame arrives\<close>

text \<open>Step 1 of the listener: the question is marked as in flight unless the map has its
  id already.\<close>

definition register :: "nat \<Rightarrow> jsval \<Rightarrow> table \<Rightarrow> table" where
  "register tid questionId T =
     (let k = own_key tid questionId
      in if map_of T k = None then AList.update k new_entry T else T)"

text \<open>Steps 2 to 4, up to the first suspension, in the state that step 1 has left.\<close>

definition resolve_and_run :: "server \<Rightarrow> jsval \<Rightarrow> jsval \<Rightarrow> jsval \<Rightarrow> server" where
  "resolve_and_run s questionId method params =
     (let tid = length (tasks s);
          t = \<lparr>t_questionId = questionId, t_key = own_key tid questionId, t_method = method,
               t_params = params, t_phase = Finished\<rparr>
      in case params of
           JArr ps \<Rightarrow>
             (let (rs, T2) = resolve_all (questionsInFlight s) ps in
              case promise_all rs of
                AllRejected e \<Rightarrow>
                  s\<lparr>questionsInFlight := T2, tasks := tasks s @ [t],
                    sent := sent s @ [(tid, Exception questionId e)]\<rparr>
              | _ \<Rightarrow>
                  (let (t', now, later, calls) = continue_task tid (t\<lparr>t_phase := Resolving rs\<rparr>)
                   in s\<lparr>questionsInFlight := T2, tasks := tasks s @ [t'],
                        sent := sent s @ now @ later, invoked := invoked s @ calls\<rparr>))
         | _ \<Rightarrow>
             s\<lparr>tasks := tasks s @ [t],
               sent := sent s @ [(tid, Exception questionId (map_error params))]\<rparr>)"

text \<open>The log line of the listener converts id and method to strings first; if that throws,
  the invocation ends outside every \<^verbatim>\<open>try\<close> and nothing is sent.\<close>

definition on_call :: "server \<Rightarrow> jsval \<Rightarrow> jsval \<Rightarrow> jsval \<Rightarrow> server" where
  "on_call s questionId method params =
     (case (js_to_string questionId, js_to_string method) of
        (Inr _, Inr _) \<Rightarrow>
          resolve_and_run
            (s\<lparr>questionsInFlight := register (length (tasks s)) questionId (questionsInFlight s)\<rparr>)
            questionId method params
      | _ \<Rightarrow> s\<lparr>tasks := tasks s @ [idle]\<rparr>)"

text \<open>The listener. \<open>None\<close> is a text that \<^verbatim>\<open>JSON.parse\<close> rejects. Reading \<^verbatim>\<open>msg.type\<close> of
  \<^verbatim>\<open>null\<close> throws as well, outside every \<^verbatim>\<open>try\<close>.\<close>

definition on_message :: "server \<Rightarrow> jsval option \<Rightarrow> server" where
  "on_message s data =
     (case data of
        None \<Rightarrow>
          s\<lparr>tasks := tasks s @ [idle],
            sent := sent s @ [(length (tasks s), Exception (JNum 0) ''Invalid JSON'')]\<rparr>
      | Some msg \<Rightarrow>
          if msg = JNull \<or> msg = JUndefined then s\<lparr>tasks := tasks s @ [idle]\<rparr>
          else if field ''type'' msg = JStr ''call'' then
            on_call s (field ''questionId'' msg) (field ''method'' msg) (field ''params'' msg)
          else s\<lparr>tasks := tasks s @ [idle]\<rparr>)"

subsection \<open>A method returns\<close>

text \<open>\<^verbatim>\<open>finalizeQuestion\<close>. The second component tells whether \<^verbatim>\<open>entry.resolve\<close> settled a
  pending promise; resolving a settled promise again has no effect. With no entry the
  assignment to \<^verbatim>\<open>entry.done\<close> throws.\<close>

definition finalizeQuestion :: "table \<Rightarrow> key \<Rightarrow> jsval \<Rightarrow> (table \<times> bool) option" where
  "finalizeQuestion T qId v =
     (case map_of T qId of
        None \<Rightarrow> None
      | Some entry \<Rightarrow>
          (let entry1 = entry\<lparr>q_done := True, q_result := v\<rparr> in
           if q_promise entry = PromisePending
           then Some (AList.update qId (entry1\<lparr>q_promise := PromiseFulfilled v\<rparr>) T, True)
           else Some (AList.update qId entry1 T, False)))"

definition wake_task :: "key \<Rightarrow> jsval \<Rightarrow> task \<Rightarrow> task" where
  "wake_task k v t =
     (case t_phase t of
        Resolving rs \<Rightarrow> t\<lparr>t_phase := Resolving (map (\<lambda>r. if r = Pending k then Fulfilled v else r) rs)\<rparr>
      | _ \<Rightarrow> t)"

text \<open>
  The timer of invocation \<open>tid\<close> fires: its method returns, it finalizes its question and
  sends the Return; then the parameters waiting for that question resume, in the order in
  which they began to wait, and the invocations they complete go on.
\<close>

definition on_timer :: "server \<Rightarrow> nat \<Rightarrow> server" where
  "on_timer s tid =
     (if tid < length (tasks s) then
        (let t = tasks s ! tid in
         case t_phase t of
           InMethod v \<Rightarrow>
             (let ts1 = (tasks s)[tid := t\<lparr>t_phase := Finished\<rparr>] in
              case finalizeQuestion (questionsInFlight s) (t_key t) v of
                None \<Rightarrow> s\<lparr>tasks := ts1\<rparr>
              | Some (T', woke) \<Rightarrow>
                  if woke then
                    (let (ts2, now, later, calls) = continue_all 0 (map (wake_task (t_key t) v) ts1)
                     in s\<lparr>questionsInFlight := T', tasks := ts2,
                          sent := sent s @ [(tid, Return (t_questionId t) v)] @ now @ later,
                          invoked := invoked s @ calls\<rparr>)
                  else
                    s\<lparr>questionsInFlight := T', tasks := ts1,
                      sent := sent s @ [(tid, Return (t_questionId t) v)]\<rparr>)
         | _ \<Rightarrow> s)
      else s)"

subsection \<open>Runs\<close>

text \<open>The events of a connection: a frame arrives, or the timer of an invocation fires.
  Between two events the job queue runs empty, so each event is one step.\<close>

datatype event = Message "jsval option" | Timer nat

fun step :: "server \<Rightarrow> event \<Rightarrow> server" where
  "step s (Message data) = on_message s data"
| "step s (Timer tid) = on_timer s tid"

definition run :: "server \<Rightarrow> event list \<Rightarrow> server" where
  "run s es = foldl step s es"

definition call :: "int \<Rightarrow> string \<Rightarrow> jsval list \<Rightarrow> jsval" where
  "call n m ps =
     JObj [(''type'', JStr ''call''), (''questionId'', JNum n), (''method'', JStr m),
           (''params'', JArr ps)]"

definition reference :: "int \<Rightarrow> jsval" where
  "reference n = JObj [(''resultOf'', JNum n)]"

section \<open>The page\<close>

text \<open>
  The issuing side keeps \<^verbatim>\<open>callsInFlight\<close>, \<^verbatim>\<open>nextQuestionId\<close> and the socket \<^verbatim>\<open>ws\<close>. An entry
  stores \<^verbatim>\<open>resolve\<close> and \<^verbatim>\<open>reject\<close> of one promise, always set together: the promise that
  \<^verbatim>\<open>callRPC\<close> returned, or the one that \<^verbatim>\<open>awaitResult\<close> created.
\<close>

datatype ready_state = CONNECTING | OPEN | CLOSING | CLOSED

datatype handlers = NoHandlers | OfCallRPC | OfAwaitResult

record centry =
  c_done :: bool
  c_result :: jsval
  c_promise :: bool
  c_handlers :: handlers

text \<open>\<open>outbox\<close> lists the objects passed to \<^verbatim>\<open>ws.send\<close>, before encoding; \<open>settled\<close> lists the
  promises resolved (\<open>Inr\<close>) or rejected (\<open>Inl\<close>, with the message of the error) so far, by
  question id.\<close>

record client =
  callsInFlight :: "(key \<times> centry) list"
  nextQuestionId :: int
  ws :: "ready_state option"
  outbox :: "jsval list"
  settled :: "(jsval \<times> handlers \<times> (string + jsval)) list"

definition cinit :: client where
  "cinit = \<lparr>callsInFlight = [], nextQuestionId = 1, ws = None, outbox = [], settled = []\<rparr>"

definition call_frame :: "int \<Rightarrow> jsval \<Rightarrow> jsval \<Rightarrow> jsval" where
  "call_frame questionId method params =
     JObj [(''type'', JStr ''call''), (''questionId'', JNum questionId), (''method'', method),
           (''params'', params)]"

datatype rpc_promise = RejectedNow string | PendingFor int

definition callRPC :: "client \<Rightarrow> jsval \<Rightarrow> jsval \<Rightarrow> rpc_promise \<times> client" where
  "callRPC c method params =
     (if ws c \<noteq> Some OPEN then (RejectedNow ''WebSocket not OPEN'', c)
      else
        (let questionId = nextQuestionId c in
         (PendingFor questionId,
          c\<lparr>nextQuestionId := questionId + 1,
            callsInFlight :=
              AList.update (KPrim (JNum questionId))
                \<lparr>c_done = False, c_result = JUndefined, c_promise = False, c_handlers = OfCallRPC\<rparr>
                (callsInFlight c),
            outbox := outbox c @ [call_frame questionId method params]\<rparr>)))"

definition callPipelined :: "client \<Rightarrow> jsval \<Rightarrow> jsval \<Rightarrow> jsval \<times> client" where
  "callPipelined c method params =
     (if ws c \<noteq> Some OPEN then (JObj [(''resultOf'', JNum (- 1))], c)
      else
        (let questionId = nextQuestionId c in
         (JObj [(''resultOf'', JNum questionId)],
          c\<lparr>nextQuestionId := questionId + 1,
            callsInFlight :=
              AList.update (KPrim (JNum questionId))
                \<lparr>c_done = False, c_result = JNull, c_promise = False, c_handlers = NoHandlers\<rparr>
                (callsInFlight c),
            outbox := outbox c @ [call_frame questionId method params]\<rparr>)))"

text \<open>What the promise returned by \<^verbatim>\<open>awaitResult\<close> is at the end of the call: rejected with
  the message of the error thrown, fulfilled, or the pending promise of an entry.\<close>

datatype await_outcome = Thrown string | Returned jsval | Suspended key

definition awaitResult :: "client \<Rightarrow> jsval \<Rightarrow> await_outcome \<times> client" where
  "awaitResult c ref =
     (if \<not> is_reference ref then (Thrown ''Not a pipeline reference'', c)
      else
        (let qId = field ''resultOf'' ref in
         case lookup_ref (callsInFlight c) qId of
           None \<Rightarrow>
             (case js_to_string qId of
                Inl e \<Rightarrow> (Thrown e, c)
              | Inr shown \<Rightarrow> (Thrown (''No call in flight for #'' @ shown), c))
         | Some entry \<Rightarrow>
             if c_done entry then (Returned (c_result entry), c)
             else if \<not> c_promise entry then
               (Suspended (KPrim qId),
                c\<lparr>callsInFlight :=
                    AList.update (KPrim qId) (entry\<lparr>c_promise := True, c_handlers := OfAwaitResult\<rparr>)
                      (callsInFlight c)\<rparr>)
             else (Suspended (KPrim qId), c)))"

text \<open>\<^verbatim>\<open>new Error(v).message\<close>.\<close>

definition error_message :: "jsval \<Rightarrow> string + string" where
  "error_message v = (if v = JUndefined then Inr [] else js_to_string v)"

text \<open>\<^verbatim>\<open>ws.onmessage\<close>. An unparsable text is logged; reading \<^verbatim>\<open>msg.type\<close> of \<^verbatim>\<open>null\<close> throws.\<close>

definition onmessage :: "client \<Rightarrow> jsval option \<Rightarrow> client" where
  "onmessage c data =
     (case data of
        None \<Rightarrow> c
      | Some msg \<Rightarrow>
          if msg = JNull \<or> msg = JUndefined then c
          else if field ''type'' msg = JStr ''return'' then
            (let answerId = field ''answerId'' msg in
             case lookup_ref (callsInFlight c) answerId of
               None \<Rightarrow> c
             | Some entry \<Rightarrow>
                 c\<lparr>callsInFlight := AList.delete (KPrim answerId) (callsInFlight c),
                   settled :=
                     (if c_handlers entry = NoHandlers then settled c
                      else settled c @ [(answerId, c_handlers entry, Inr (field ''result'' msg))])\<rparr>)
          else if field ''type'' msg = JStr ''exception'' then
            (let answerId = field ''answerId'' msg in
             case lookup_ref (callsInFlight c) answerId of
               None \<Rightarrow> c
             | Some entry \<Rightarrow>
                 if c_handlers entry = NoHandlers
                 then c\<lparr>callsInFlight := AList.delete (KPrim answerId) (callsInFlight c)\<rparr>
                 else
                   (case error_message (field ''error'' msg) of
                      Inl e \<Rightarrow> c
                    | Inr m \<Rightarrow>
                        c\<lparr>callsInFlight := AList.delete (KPrim answerId) (callsInFlight c),
                          settled := settled c @ [(answerId, c_handlers entry, Inl m)]\<rparr>))
          else c)"

text \<open>What happens on the page: the socket changes state, the application calls one of the
  three functions, or a frame arrives.\<close>

datatype cevent =
    Socket "ready_state option"
  | CallRPC jsval jsval
  | CallPipelined jsval jsval
  | AwaitResult jsval
  | OnMessage "jsval option"

fun cstep :: "client \<Rightarrow> cevent \<Rightarrow> client" where
  "cstep c (Socket r) = c\<lparr>ws := r\<rparr>"
| "cstep c (CallRPC method params) = snd (callRPC c method params)"
| "cstep c (CallPipelined method params) = snd (callPipelined c method params)"
| "cstep c (AwaitResult ref) = snd (awaitResult c ref)"
| "cstep c (OnMessage data) = onmessage c data"

definition crun :: "client \<Rightarrow> cevent list \<Rightarrow> client" where
  "crun c es = foldl cstep c es"

section \<open>Auxiliary notions\<close>

text \<open>Every key of \<^verbatim>\<open>callsInFlight\<close> is a number that \<^verbatim>\<open>nextQuestionId\<close> has passed.\<close>

definition ids_issued :: "client \<Rightarrow> bool" where
  "ids_issued c \<longleftrightarrow>
     1 \<le> nextQuestionId c \<and>
     (\<forall>k e. map_of (callsInFlight c) k = Some e \<longrightarrow>
        (\<exists>n. k = KPrim (JNum n) \<and> 1 \<le> n \<and> n < nextQuestionId c))"

text \<open>What an entry answers: whether it is done, and its stored result.\<close>

definition answers :: "table \<Rightarrow> key \<Rightarrow> (bool \<times> jsval) option" where
  "answers T k = map_option (\<lambda>q. (q_done q, q_result q)) (map_of T k)"

text \<open>A Return frame as the page receives it.\<close>

definition return_frame :: "int \<Rightarrow> jsval \<Rightarrow> jsval" where
  "return_frame n v = JObj [(''type'', JStr ''return''), (''answerId'', JNum n), (''result'', v)]"

text \<open>The two frames of the pipelined greeting, and the frames the worker answers.\<close>

definition greet :: event where
  "greet = Message (Some (call 1 ''makeGreeting'' [JStr ''Alice'']))"

definition emphasize :: event where
  "emphasize = Message (Some (call 2 ''appendSuffix'' [reference 1, JStr ''!!!'']))"

definition both_returns :: "(nat \<times> frame) list" where
  "both_returns = [(0, Return (JNum 1) (JStr ''Hello, Alice!'')),
                   (1, Return (JNum 2) (JStr ''Hello, Alice!!!!''))]"

text \<open>The states of the worker once both frames of the pipelined greeting have arrived.\<close>

definition after_both :: "server set" where
  "after_both = {run init [greet, emphasize], run init [greet, emphasize, Timer 0],
                 run init [greet, Timer 0, emphasize],
                 run init [greet, emphasize, Timer 0, Timer 1],
                 run init [greet, Timer 0, emphasize, Timer 1]}"

text \<open>Every frame sent and every method call is attributed to an invocation that exists.\<close>

definition well_tagged :: "server \<Rightarrow> bool" where
  "well_tagged s \<longleftrightarrow>
     (\<forall>x\<in>set (sent s). fst x < length (tasks s)) \<and>
     (\<forall>x\<in>set (invoked s). fst x < length (tasks s))"










text \<open>The entry under the key has a pending promise.\<close>

definition awaited :: "table \<Rightarrow> key \<Rightarrow> bool" where
  "awaited T k \<longleftrightarrow> (\<exists>q. map_of T k = Some q \<and> q_promise q = PromisePending)"

text \<open>A suspended invocation has its question registered, and each parameter it waits for
  waits on a pending promise.\<close>

definition task_waits :: "table \<Rightarrow> task \<Rightarrow> bool" where
  "task_waits T t \<longleftrightarrow>
     (t_phase t \<noteq> Finished \<longrightarrow> map_of T (t_key t) \<noteq> None) \<and>
     (\<forall>rs. t_phase t = Resolving rs \<longrightarrow> (\<forall>k. Pending k \<in> set rs \<longrightarrow> awaited T k))"

text \<open>Moreover, an invocation that waits for its parameters still lacks one.\<close>

definition task_ok :: "table \<Rightarrow> task \<Rightarrow> bool" where
  "task_ok T t \<longleftrightarrow>
     task_waits T t \<and>
     (\<forall>rs. t_phase t = Resolving rs \<longrightarrow> (\<forall>args. promise_all rs \<noteq> AllFulfilled args))"

definition waiting_ok :: "server \<Rightarrow> bool" where
  "waiting_ok s \<longleftrightarrow> (\<forall>i<length (tasks s). task_ok (questionsInFlight s) (tasks s ! i))"

text \<open>
  State \<open>b\<close> is state \<open>a\<close> with one more invocation, number \<open>n\<close>, that has ended: the other
  invocations, their frames and their method calls are the same, every question registered
  in \<open>a\<close> answers the same in \<open>b\<close>, and every promise pending in \<open>a\<close> is pending in \<open>b\<close>.
\<close>

definition shadows :: "nat \<Rightarrow> server \<Rightarrow> server \<Rightarrow> bool" where
  "shadows n a b \<longleftrightarrow>
     length (tasks a) = n \<and>
     (\<exists>t. tasks b = tasks a @ [t] \<and> t_phase t = Finished) \<and>
     filter (\<lambda>f. fst f \<noteq> n) (sent b) = sent a \<and>
     filter (\<lambda>c. fst c \<noteq> n) (invoked b) = invoked a \<and>
     (\<forall>k. answers (questionsInFlight a) k \<noteq> None \<longrightarrow>
          answers (questionsInFlight b) k = answers (questionsInFlight a) k) \<and>
     (\<forall>k. awaited (questionsInFlight a) k \<longrightarrow> awaited (questionsInFlight b) k)"

section \<open>Runs\<close>

lemma run_Nil: "run s [] = s"
  by (simp add: run_def)

lemma run_Cons: "run s (e # es) = run (step s e) es"
  by (simp add: run_def)

lemma run_snoc: "run s (es @ [e]) = step (run s es) e"
  by (simp add: run_def)


lemma crun_Nil: "crun c [] = c"
  by (simp add: crun_def)

lemma crun_snoc: "crun c (es @ [e]) = cstep (crun c es) e"
  by (simp add: crun_def)

section \<open>The page: question ids\<close>

lemma ids_issued_cstep: "ids_issued c \<Longrightarrow> ids_issued (cstep c e)"
proof (cases e)
  case (Socket r)
  assume "ids_issued c" then show ?thesis using Socket by (simp add: ids_issued_def)
next
  case (CallRPC m p)
  assume "ids_issued c" then show ?thesis using CallRPC
    by (fastforce simp: ids_issued_def callRPC_def Let_def update_conv' split: if_splits)
next
  case (CallPipelined m p)
  assume "ids_issued c" then show ?thesis using CallPipelined
    by (fastforce simp: ids_issued_def callPipelined_def Let_def update_conv' split: if_splits)
next
  case (AwaitResult r)
  assume "ids_issued c" then show ?thesis using AwaitResult
    by (fastforce simp: ids_issued_def awaitResult_def Let_def update_conv' lookup_ref_def
        split: if_splits option.splits sum.splits)
next
  case (OnMessage d)
  assume "ids_issued c" then show ?thesis using OnMessage
    by (fastforce simp: ids_issued_def onmessage_def Let_def delete_conv' lookup_ref_def
        split: if_splits option.splits sum.splits)
qed

lemma ids_issued_crun: "ids_issued c \<Longrightarrow> ids_issued (crun c es)"
  by (induction es rule: rev_induct) (simp_all add: crun_Nil crun_snoc ids_issued_cstep)

lemma ids_issued_cinit: "ids_issued cinit"
  by (simp add: ids_issued_def cinit_def)

lemma show_minus_one: "show_int (- 1) = ''-1''"
  by (simp add: show_int_def digits.simps)

lemma awaitResult_sentinel:
  assumes "ids_issued c"
  shows "awaitResult c (JObj [(''resultOf'', JNum (- 1))]) =
           (Thrown ''No call in flight for #-1'', c)"
proof -
  have "map_of (callsInFlight c) (KPrim (JNum (- 1))) = None"
  proof (cases "map_of (callsInFlight c) (KPrim (JNum (- 1)))")
    case None then show ?thesis .
  next
    case (Some e)
    with assms obtain n where "KPrim (JNum (- 1)) = KPrim (JNum n)" "1 \<le> n"
      unfolding ids_issued_def by blast
    then show ?thesis by simp
  qed
  then show ?thesis
    by (simp add: awaitResult_def is_reference_def lookup_ref_def show_minus_one)
qed

text \<open>
  Claim C10. In every state \<open>c\<close> that the page reaches with its socket not open,
  \<^verbatim>\<open>callPipelined\<close> returns the reference \<^verbatim>\<open>{resultOf: -1}\<close> and leaves the state as it is: no
  frame is sent and no question registered. Whatever happens afterwards, \<^verbatim>\<open>awaitResult\<close> on
  that reference throws \<^verbatim>\<open>No call in flight for #-1\<close> and does not suspend.
\<close>

theorem callPipelined_socket_not_open:
  assumes "c = crun cinit es" and "ws c \<noteq> Some OPEN"
  shows "callPipelined c method params = (JObj [(''resultOf'', JNum (- 1))], c) \<and>
         awaitResult (crun c es') (JObj [(''resultOf'', JNum (- 1))]) =
           (Thrown ''No call in flight for #-1'', crun c es')"
proof
  show "callPipelined c method params = (JObj [(''resultOf'', JNum (- 1))], c)"
    using assms(2) by (simp add: callPipelined_def)
  have "ids_issued (crun c es')"
    using assms(1) ids_issued_cinit ids_issued_crun by simp
  then show "awaitResult (crun c es') (JObj [(''resultOf'', JNum (- 1))]) =
           (Thrown ''No call in flight for #-1'', crun c es')"
    by (rule awaitResult_sentinel)
qed

theorem callPipelined_socket_not_open_witness:
  "ws (crun cinit [Socket (Some OPEN), CallPipelined (JStr ''makeGreeting'') (JArr [JStr ''Alice'']),
                   Socket (Some CLOSED)]) \<noteq> Some OPEN \<and>
   fst (callPipelined
          (crun cinit [Socket (Some OPEN), CallPipelined (JStr ''makeGreeting'') (JArr [JStr ''Alice'']),
                       Socket (Some CLOSED)])
          (JStr ''appendSuffix'') (JArr [JStr ''a'', JStr ''b''])) = JObj [(''resultOf'', JNum (- 1))] \<and>
   fst (awaitResult
          (crun (crun cinit [Socket (Some OPEN), CallPipelined (JStr ''makeGreeting'') (JArr [JStr ''Alice'']),
                             Socket (Some CLOSED)])
             [Socket (Some OPEN), CallPipelined (JStr ''makeGreeting'') (JArr [JStr ''Bob''])])
          (JObj [(''resultOf'', JNum (- 1))])) = Thrown ''No call in flight for #-1''"
proof -
  have closed: "ws (crun cinit [Socket (Some OPEN),
                  CallPipelined (JStr ''makeGreeting'') (JArr [JStr ''Alice'']),
                  Socket (Some CLOSED)]) \<noteq> Some OPEN"
    by (simp add: crun_def cinit_def callPipelined_def)
  show ?thesis
    using closed callPipelined_socket_not_open [OF refl closed]
    by simp
qed

section \<open>The worker: single steps\<close>

lemma maybeResolveParam_literal:
  "\<not> is_reference p \<Longrightarrow> maybeResolveParam T p = (Fulfilled p, T)"
  by (simp add: maybeResolveParam_def)

lemma resolve_all_literals:
  "\<forall>p\<in>set ps. \<not> is_reference p \<Longrightarrow> resolve_all T ps = (map Fulfilled ps, T)"
  by (induction ps) (simp_all add: maybeResolveParam_literal)

lemma promise_all_Fulfilled: "promise_all (map Fulfilled vs) = AllFulfilled vs"
  by (induction vs) simp_all

lemma continue_all_length:
  "continue_all n ts = (ts', now, later, calls) \<Longrightarrow> length ts' = length ts"
  by (induction ts arbitrary: n ts' now later calls) (auto simp: Let_def split: prod.splits)

lemma finalizeQuestion_eq:
  "map_of T k = Some e \<Longrightarrow>
   finalizeQuestion T k v =
     Some (AList.update k
             (e\<lparr>q_done := True, q_result := v,
                q_promise := (if q_promise e = PromisePending then PromiseFulfilled v else q_promise e)\<rparr>) T,
           q_promise e = PromisePending)"
  by (simp add: finalizeQuestion_def Let_def)

lemma finalizeQuestion_Some:
  "map_of T k = Some e \<Longrightarrow> \<exists>T' w. finalizeQuestion T k v = Some (T', w)"
  by (simp add: finalizeQuestion_eq)

lemma is_handler_printable: "is_handler m \<Longrightarrow> \<exists>x. js_to_string m = Inr x"
  by (auto simp: is_handler_def)

lemma undecodable: "step s (Message None) =
     s\<lparr>tasks := tasks s @ [idle],
       sent := sent s @ [(length (tasks s), Exception (JNum 0) ''Invalid JSON'')]\<rparr>"
  by (simp add: on_message_def)

lemma on_call_literals:
  assumes "js_to_string questionId = Inr x" "is_handler method"
     "\<forall>p\<in>set ps. \<not> is_reference p" "run_method method ps = Started v"
  shows "tasks (on_call s questionId method (JArr ps)) =
       tasks s @ [\<lparr>t_questionId = questionId, t_key = own_key (length (tasks s)) questionId,
                    t_method = method, t_params = JArr ps, t_phase = InMethod v\<rparr>]"
    and "sent (on_call s questionId method (JArr ps)) = sent s"
    and "invoked (on_call s questionId method (JArr ps)) = invoked s @ [(length (tasks s), method, ps)]"
    and "map_of (questionsInFlight (on_call s questionId method (JArr ps)))
           (own_key (length (tasks s)) questionId) \<noteq> None"
proof -
  obtain y where "js_to_string method = Inr y" using is_handler_printable assms(2) by blast
  then show "tasks (on_call s questionId method (JArr ps)) =
       tasks s @ [\<lparr>t_questionId = questionId, t_key = own_key (length (tasks s)) questionId,
                    t_method = method, t_params = JArr ps, t_phase = InMethod v\<rparr>]"
    and "sent (on_call s questionId method (JArr ps)) = sent s"
    and "invoked (on_call s questionId method (JArr ps)) = invoked s @ [(length (tasks s), method, ps)]"
    and "map_of (questionsInFlight (on_call s questionId method (JArr ps)))
           (own_key (length (tasks s)) questionId) \<noteq> None"
    using assms
    by (auto simp add: on_call_def register_def resolve_and_run_def Let_def resolve_all_literals
        promise_all_Fulfilled continue_task_def update_conv')
qed

lemma on_timer_returns:
  assumes "tid < length (tasks s)" "t_phase (tasks s ! tid) = InMethod v"
    "map_of (questionsInFlight s) (t_key (tasks s ! tid)) \<noteq> None"
  shows "\<exists>more. sent (on_timer s tid) = sent s @ (tid, Return (t_questionId (tasks s ! tid)) v) # more"
proof -
  obtain T' w where "finalizeQuestion (questionsInFlight s) (t_key (tasks s ! tid)) v = Some (T', w)"
    using assms(3) finalizeQuestion_Some by blast
  then show ?thesis using assms(1,2)
    by (auto simp: on_timer_def Let_def split: prod.splits)
qed


lemma on_message_call:
  "field ''type'' msg = JStr ''call'' \<Longrightarrow>
   on_message s (Some msg) =
     on_call s (field ''questionId'' msg) (field ''method'' msg) (field ''params'' msg)"
  by (auto simp: on_message_def)

text \<open>
  Claim C9. In every state of a connection, a frame that cannot be decoded makes the
  listener send exactly one frame, \<^verbatim>\<open>Exception{answerId: 0, error: "Invalid JSON"}\<close>, and
  changes neither the table nor any earlier invocation. A call of a known method with
  literal parameters that arrives next on the same connection is processed as usual: when
  its timer fires, the next frame sent is its Return, with the value of the method.
\<close>

theorem undecodable_frame:
  assumes "field ''type'' msg = JStr ''call''" 
      and "js_to_string (field ''questionId'' msg) = Inr x"
      and "is_handler (field ''method'' msg)"
      and "field ''params'' msg = JArr ps"
      and "\<forall>p\<in>set ps. \<not> is_reference p"
      and "run_method (field ''method'' msg) ps = Started v"
  shows "step s (Message None) =
           s\<lparr>tasks := tasks s @ [idle],
             sent := sent s @ [(length (tasks s), Exception (JNum 0) ''Invalid JSON'')]\<rparr> \<and>
         (\<exists>more. sent (run s [Message None, Message (Some msg), Timer (Suc (length (tasks s)))]) =
            sent s @ (length (tasks s), Exception (JNum 0) ''Invalid JSON'') #
                     (Suc (length (tasks s)), Return (field ''questionId'' msg) v) # more)"
proof
  let ?s1 = "on_message s None"
  let ?n = "length (tasks s)"
  have u: "?s1 = s\<lparr>tasks := tasks s @ [idle],
             sent := sent s @ [(?n, Exception (JNum 0) ''Invalid JSON'')]\<rparr>"
    by (simp add: on_message_def)
  then show "step s (Message None) = s\<lparr>tasks := tasks s @ [idle],
             sent := sent s @ [(?n, Exception (JNum 0) ''Invalid JSON'')]\<rparr>" by simp
  let ?q = "field ''questionId'' msg" and ?m = "field ''method'' msg"
  let ?s2 = "on_call ?s1 ?q ?m (JArr ps)"
  have run_eq: "run s [Message None, Message (Some msg), Timer (Suc ?n)] = on_timer ?s2 (Suc ?n)"
    by (simp add: run_def on_message_call [OF assms(1)] assms(4))
  have len: "length (tasks ?s1) = Suc ?n" by (simp add: u)
  note lits = on_call_literals [OF assms(2,3,5,6), of ?s1]
  have "\<exists>more. sent (on_timer ?s2 (Suc ?n)) =
           sent ?s2 @ (Suc ?n, Return (t_questionId (tasks ?s2 ! Suc ?n)) v) # more"
    using lits(4) by (intro on_timer_returns) (simp_all add: lits(1-3) len nth_append)
  then obtain more where "sent (on_timer ?s2 (Suc ?n)) =
           sent ?s2 @ (Suc ?n, Return (t_questionId (tasks ?s2 ! Suc ?n)) v) # more"
    by blast
  moreover have "sent ?s2 = sent s @ [(?n, Exception (JNum 0) ''Invalid JSON'')]"
    by (simp add: lits(2)) (simp add: u)
  moreover have "t_questionId (tasks ?s2 ! Suc ?n) = ?q"
    by (simp add: lits(1) len nth_append)
  ultimately have "sent (run s [Message None, Message (Some msg), Timer (Suc ?n)]) =
            sent s @ (?n, Exception (JNum 0) ''Invalid JSON'') # (Suc ?n, Return ?q v) # more"
    by (simp add: run_eq)
  then show "\<exists>more. sent (run s [Message None, Message (Some msg), Timer (Suc ?n)]) =
            sent s @ (?n, Exception (JNum 0) ''Invalid JSON'') # (Suc ?n, Return ?q v) # more"
    by blast
qed

theorem undecodable_frame_witness:
  "step init (Message None) =
           init\<lparr>tasks := [idle], sent := [(0, Exception (JNum 0) ''Invalid JSON'')]\<rparr> \<and>
   (\<exists>more. sent (run init [Message None, Message (Some (call 1 ''makeGreeting'' [JStr ''Alice''])), Timer 1]) =
            (0, Exception (JNum 0) ''Invalid JSON'') # (1, Return (JNum 1) (JStr ''Hello, Alice!'')) # more)"
proof -
  let ?msg = "call 1 ''makeGreeting'' [JStr ''Alice'']"
  have 1: "field ''type'' ?msg = JStr ''call''" by (simp add: call_def)
  have 2: "js_to_string (field ''questionId'' ?msg) = Inr ''1''"
    by (simp add: call_def show_int_def digits.simps)
  have 3: "is_handler (field ''method'' ?msg)" by (simp add: call_def is_handler_def)
  have 4: "field ''params'' ?msg = JArr [JStr ''Alice'']" by (simp add: call_def)
  have 5: "\<forall>p\<in>set [JStr ''Alice'']. \<not> is_reference p" by (simp add: is_reference_def)
  have 6: "run_method (field ''method'' ?msg) [JStr ''Alice''] = Started (JStr ''Hello, Alice!'')"
    by (simp add: call_def run_method_def makeGreeting_def arg_def)
  have 7: "field ''questionId'' ?msg = JNum 1" by (simp add: call_def)
  show ?thesis
    using undecodable_frame [OF 1 2 3 4 5 6, of init] unfolding 7
    by (simp add: init_def)
qed

section \<open>The worker: what a step changes\<close>

lemma answers_None: "answers T k = None \<longleftrightarrow> map_of T k = None"
  by (simp add: answers_def)

lemma answers_update:
  "answers (AList.update k q T) k' = (if k' = k then Some (q_done q, q_result q) else answers T k')"
  by (simp add: answers_def update_conv')

lemma maybeResolveParam_answers: "answers (snd (maybeResolveParam T p)) = answers T"
proof
  fix k
  show "answers (snd (maybeResolveParam T p)) k = answers T k"
    by (auto simp: maybeResolveParam_def Let_def lookup_ref_def answers_update
        split: sum.splits option.splits promise_state.splits)
       (simp_all add: answers_def)
qed

lemma resolve_all_answers: "answers (snd (resolve_all T ps)) = answers T"
proof (induction ps arbitrary: T)
  case Nil
  show ?case by simp
next
  case (Cons p ps)
  obtain r T1 where 1: "maybeResolveParam T p = (r, T1)" by (cases "maybeResolveParam T p")
  obtain rs T2 where 2: "resolve_all T1 ps = (rs, T2)" by (cases "resolve_all T1 ps")
  have "answers T2 = answers T1" using Cons.IH [of T1] 2 by simp
  moreover have "answers T1 = answers T" using maybeResolveParam_answers [of T p] 1 by simp
  ultimately show ?case by (simp add: 1 2)
qed

lemma register_answers:
  "answers (register n q T) k =
     (if k = own_key n q \<and> map_of T k = None then Some (False, JNull) else answers T k)"
  by (auto simp: register_def Let_def answers_update new_entry_def)

lemma register_registered: "map_of (register n q T) (own_key n q) \<noteq> None"
  by (simp add: register_def Let_def update_conv')

lemma finalizeQuestion_answers:
  "finalizeQuestion T k v = Some (T', w) \<Longrightarrow>
   answers T' k' = (if k' = k then Some (True, v) else answers T k')"
  by (auto simp: finalizeQuestion_def Let_def answers_update split: option.splits if_splits)

lemma resolve_and_run_table:
  "answers (questionsInFlight (resolve_and_run s q m ps)) = answers (questionsInFlight s)"
proof (cases ps)
  case (JArr xs)
  obtain rs T2 where r: "resolve_all (questionsInFlight s) xs = (rs, T2)"
    by (cases "resolve_all (questionsInFlight s) xs")
  have "answers T2 = answers (questionsInFlight s)"
    using resolve_all_answers [of "questionsInFlight s" xs] r by simp
  then show ?thesis
    by (simp add: resolve_and_run_def Let_def JArr r split: all_state.splits prod.splits)
qed (simp_all add: resolve_and_run_def Let_def)

lemma on_message_answers:
  "answers (questionsInFlight s) k = Some a \<Longrightarrow>
   answers (questionsInFlight (on_message s d)) k = Some a"
  by (auto simp: on_message_def on_call_def resolve_and_run_table register_answers
      split: option.splits sum.splits)
     (simp add: answers_def)

lemma on_timer_answers:
  "answers (questionsInFlight s) k = Some a \<Longrightarrow>
   answers (questionsInFlight (on_timer s tid)) k = Some a \<or>
   (tid < length (tasks s) \<and> k = t_key (tasks s ! tid) \<and>
    (\<exists>v. t_phase (tasks s ! tid) = InMethod v \<and>
         answers (questionsInFlight (on_timer s tid)) k = Some (True, v)))"
  by (auto simp: on_timer_def Let_def finalizeQuestion_answers split: phase.splits option.splits prod.splits)

lemma step_registered:
  "map_of (questionsInFlight s) k \<noteq> None \<Longrightarrow> map_of (questionsInFlight (step s e)) k \<noteq> None"
proof -
  assume "map_of (questionsInFlight s) k \<noteq> None"
  then obtain a where a: "answers (questionsInFlight s) k = Some a"
    by (auto simp: answers_def)
  have "answers (questionsInFlight (step s e)) k \<noteq> None"
  proof (cases e)
    case (Message d)
    then show ?thesis using on_message_answers [OF a] by simp
  next
    case (Timer tid)
    then show ?thesis using on_timer_answers [OF a, of tid] by auto
  qed
  then show ?thesis by (simp add: answers_None)
qed

lemma run_registered:
  "map_of (questionsInFlight s) k \<noteq> None \<Longrightarrow> map_of (questionsInFlight (run s es)) k \<noteq> None"
  by (induction es rule: rev_induct) (simp_all add: run_Nil run_snoc step_registered)

section \<open>Entries of the two tables\<close>

lemma cstep_removes:
  assumes "map_of (callsInFlight c) k \<noteq> None" and "map_of (callsInFlight (cstep c e)) k = None"
  shows "\<exists>msg. e = OnMessage (Some msg) \<and>
           (field ''type'' msg = JStr ''return'' \<or> field ''type'' msg = JStr ''exception'') \<and>
           k = KPrim (field ''answerId'' msg)"
proof (cases e)
  case (Socket r)
  then show ?thesis using assms by simp
next
  case (CallRPC m p)
  then show ?thesis using assms
    by (auto simp: callRPC_def Let_def update_conv' split: if_splits)
next
  case (CallPipelined m p)
  then show ?thesis using assms
    by (auto simp: callPipelined_def Let_def update_conv' split: if_splits)
next
  case (AwaitResult r)
  then show ?thesis using assms
    by (auto simp: awaitResult_def Let_def update_conv' split: if_splits option.splits sum.splits)
next
  case (OnMessage d)
  then show ?thesis using assms
    by (auto simp: onmessage_def Let_def delete_conv' split: if_splits option.splits sum.splits)
qed

lemma onmessage_return_removes:
  assumes "field ''type'' msg = JStr ''return''"
  shows "lookup_ref (callsInFlight (onmessage c (Some msg))) (field ''answerId'' msg) = None"
proof -
  have "msg \<noteq> JNull" "msg \<noteq> JUndefined" using assms by auto
  then show ?thesis using assms
    by (auto simp: onmessage_def Let_def lookup_ref_def delete_conv' split: option.splits)
qed

lemma onmessage_exception_removes:
  assumes "field ''type'' msg = JStr ''exception''" and "field ''error'' msg = JStr err"
  shows "lookup_ref (callsInFlight (onmessage c (Some msg))) (field ''answerId'' msg) = None"
proof -
  have "msg \<noteq> JNull" "msg \<noteq> JUndefined" using assms by auto
  then show ?thesis using assms
    by (auto simp: onmessage_def Let_def lookup_ref_def delete_conv' error_message_def
        split: option.splits)
qed

text \<open>
  Claim C5, as the code has it. On the resolving side an entry of \<^verbatim>\<open>questionsInFlight\<close>, once
  registered, is there in every later state of the connection. On the issuing side an
  entry of \<^verbatim>\<open>callsInFlight\<close> stays until the page processes a Return or an Exception with
  its id, and no other step removes it; processing a Return, or an Exception whose error
  is a string, leaves no entry under the answered id.
\<close>

theorem entries_persist_until_answered:
  "(map_of (questionsInFlight s) k \<noteq> None \<longrightarrow> map_of (questionsInFlight (run s es)) k \<noteq> None) \<and>
   (map_of (callsInFlight c) k' \<noteq> None \<and> map_of (callsInFlight (cstep c e)) k' = None \<longrightarrow>
      (\<exists>msg. e = OnMessage (Some msg) \<and>
         (field ''type'' msg = JStr ''return'' \<or> field ''type'' msg = JStr ''exception'') \<and>
         k' = KPrim (field ''answerId'' msg))) \<and>
   (field ''type'' msg = JStr ''return'' \<or>
    field ''type'' msg = JStr ''exception'' \<and> field ''error'' msg = JStr err \<longrightarrow>
      lookup_ref (callsInFlight (onmessage c (Some msg))) (field ''answerId'' msg) = None)"
  using run_registered [of s k es] cstep_removes [of c k' e]
    onmessage_return_removes [of msg c] onmessage_exception_removes [of msg err c]
  by blast

theorem entries_persist_until_answered_witness:
  "map_of (questionsInFlight (run init [Message (Some (call 1 ''makeGreeting'' [JStr ''Alice'']))]))
     (KPrim (JNum 1)) \<noteq> None \<and>
   map_of (questionsInFlight
     (run (run init [Message (Some (call 1 ''makeGreeting'' [JStr ''Alice'']))]) [Timer 0]))
     (KPrim (JNum 1)) \<noteq> None \<and>
   lookup_ref (callsInFlight (onmessage
       (crun cinit [Socket (Some OPEN), CallPipelined (JStr ''makeGreeting'') (JArr [JStr ''Alice''])])
       (Some (return_frame 1 (JStr ''Hello, Alice!''))))) (JNum 1) = None"
proof -
  let ?s = "run init [Message (Some (call 1 ''makeGreeting'' [JStr ''Alice'']))]"
  let ?c = "crun cinit [Socket (Some OPEN), CallPipelined (JStr ''makeGreeting'') (JArr [JStr ''Alice''])]"
  let ?msg = "return_frame 1 (JStr ''Hello, Alice!'')"
  have reg: "map_of (questionsInFlight ?s) (KPrim (JNum 1)) \<noteq> None"
    by code_simp
  have ty: "field ''type'' ?msg = JStr ''return''" and ans: "field ''answerId'' ?msg = JNum 1"
    by (simp_all add: return_frame_def)
  show ?thesis
    using reg ty entries_persist_until_answered [of ?s "KPrim (JNum 1)" "[Timer 0]" ?c _ _ ?msg]
    unfolding ans by blast
qed

theorem entries_persist_counterexample:
  "map_of (callsInFlight
      (crun cinit [Socket (Some OPEN), CallPipelined (JStr ''makeGreeting'') (JArr [JStr ''Alice''])]))
      (KPrim (JNum 1)) \<noteq> None \<and>
   map_of (callsInFlight
      (crun cinit [Socket (Some OPEN), CallPipelined (JStr ''makeGreeting'') (JArr [JStr ''Alice'']),
                   OnMessage (Some (return_frame 1 (JStr ''Hello, Alice!'')))]))
      (KPrim (JNum 1)) = None"
  by code_simp

section \<open>Finalizing a question twice\<close>

text \<open>
  Claim C4, as the code has it. \<^verbatim>\<open>finalizeQuestion\<close> has no guard: called twice for a
  registered id it succeeds both times, the entry ends up done with the second value as
  its stored result, no other entry changes, and the second call wakes nobody. Only the
  promise of the entry, when the first call resolved it, keeps the first value.
\<close>

theorem finalizeQuestion_twice:
  assumes "map_of T k = Some e"
  shows "\<exists>T1 T2 e2.
           finalizeQuestion T k v1 = Some (T1, q_promise e = PromisePending) \<and>
           finalizeQuestion T1 k v2 = Some (T2, False) \<and>
           map_of T2 k = Some e2 \<and> q_done e2 \<and> q_result e2 = v2 \<and>
           (q_promise e = PromisePending \<longrightarrow> q_promise e2 = PromiseFulfilled v1) \<and>
           (\<forall>k'. k' \<noteq> k \<longrightarrow> map_of T2 k' = map_of T k')"
  using assms
  by (cases "q_promise e = PromisePending")
     (auto simp add: finalizeQuestion_def Let_def update_conv')

theorem finalizeQuestion_twice_witness:
  "\<exists>T1 T2 e2.
     finalizeQuestion [(KPrim (JNum 1), new_entry)] (KPrim (JNum 1)) (JStr ''first'') = Some (T1, False) \<and>
     finalizeQuestion T1 (KPrim (JNum 1)) (JStr ''second'') = Some (T2, False) \<and>
     map_of T2 (KPrim (JNum 1)) = Some e2 \<and> q_done e2 \<and> q_result e2 = JStr ''second''"
proof -
  have reg: "map_of [(KPrim (JNum 1), new_entry)] (KPrim (JNum 1)) = Some new_entry" by simp
  have np: "(q_promise new_entry = PromisePending) = False" by (simp add: new_entry_def)
  show ?thesis
    using finalizeQuestion_twice [OF reg, of "JStr ''first''" "JStr ''second''"]
    unfolding np by blast
qed

theorem resolve_twice_counterexample:
  "finalizeQuestion [(KPrim (JNum 1), new_entry)] (KPrim (JNum 1)) (JStr ''first'') =
     Some ([(KPrim (JNum 1), \<lparr>q_done = True, q_result = JStr ''first'', q_promise = NoPromise\<rparr>)], False) \<and>
   finalizeQuestion
     [(KPrim (JNum 1), \<lparr>q_done = True, q_result = JStr ''first'', q_promise = NoPromise\<rparr>)]
     (KPrim (JNum 1)) (JStr ''second'') =
     Some ([(KPrim (JNum 1), \<lparr>q_done = True, q_result = JStr ''second'', q_promise = NoPromise\<rparr>)], False) \<and>
   map snd (sent (run init
     [Message (Some (call 1 ''makeGreeting'' [JStr ''A''])),
      Message (Some (call 1 ''makeGreeting'' [JStr ''B''])), Timer 0, Timer 1])) =
     [Return (JNum 1) (JStr ''Hello, A!''), Return (JNum 1) (JStr ''Hello, B!'')] \<and>
   map_option q_result (map_of (questionsInFlight (run init
     [Message (Some (call 1 ''makeGreeting'' [JStr ''A''])),
      Message (Some (call 1 ''makeGreeting'' [JStr ''B''])), Timer 0])) (KPrim (JNum 1))) =
     Some (JStr ''Hello, A!'') \<and>
   map_option q_result (map_of (questionsInFlight (run init
     [Message (Some (call 1 ''makeGreeting'' [JStr ''A''])),
      Message (Some (call 1 ''makeGreeting'' [JStr ''B''])), Timer 0, Timer 1])) (KPrim (JNum 1))) =
     Some (JStr ''Hello, B!'')"
  by code_simp

section \<open>The pipelined greeting\<close>

lemma on_timer_idle:
  "(\<And>v. tid < length (tasks s) \<Longrightarrow> t_phase (tasks s ! tid) \<noteq> InMethod v) \<Longrightarrow> on_timer s tid = s"
  by (auto simp: on_timer_def Let_def split: phase.splits)

lemma greet_phases:
  "map t_phase (tasks (run init [greet])) = [InMethod (JStr ''Hello, Alice!'')]"
  "map t_phase (tasks (run init [greet, Timer 0])) = [Finished]"
  by code_simp+

lemma both_phases:
  "map t_phase (tasks (run init [greet, emphasize])) =
     [InMethod (JStr ''Hello, Alice!''), Resolving [Pending (KPrim (JNum 1)), Fulfilled (JStr ''!!!'')]]"
  "map t_phase (tasks (run init [greet, emphasize, Timer 0])) =
     [Finished, InMethod (JStr ''Hello, Alice!!!!'')]"
  "map t_phase (tasks (run init [greet, Timer 0, emphasize])) =
     [Finished, InMethod (JStr ''Hello, Alice!!!!'')]"
  "map t_phase (tasks (run init [greet, emphasize, Timer 0, Timer 1])) = [Finished, Finished]"
  "map t_phase (tasks (run init [greet, Timer 0, emphasize, Timer 1])) = [Finished, Finished]"
  by code_simp+

lemma phases_nth:
  "map t_phase (tasks s) = ps \<Longrightarrow> tid < length (tasks s) \<Longrightarrow> t_phase (tasks s ! tid) = ps ! tid"
  by (metis length_map nth_map)

lemma phases_length: "map t_phase (tasks s) = ps \<Longrightarrow> length (tasks s) = length ps"
  by (metis length_map)

lemma timer_idle_one:
  assumes "map t_phase (tasks s) = [p]" and "k \<noteq> 0 \<or> (\<forall>v. p \<noteq> InMethod v)"
  shows "step s (Timer k) = s"
proof -
  have "on_timer s k = s"
  proof (rule on_timer_idle)
    fix v assume "k < length (tasks s)"
    then have k: "k = 0" using phases_length [OF assms(1)] by simp
    then have "t_phase (tasks s ! k) = p"
      using phases_nth [OF assms(1), of 0] phases_length [OF assms(1)] by simp
    then show "t_phase (tasks s ! k) \<noteq> InMethod v" using assms(2) k by simp
  qed
  then show ?thesis by simp
qed

lemma timer_idle_two:
  assumes "map t_phase (tasks s) = [p, q]"
    and "k = 0 \<longrightarrow> (\<forall>v. p \<noteq> InMethod v)" and "k = 1 \<longrightarrow> (\<forall>v. q \<noteq> InMethod v)"
  shows "step s (Timer k) = s"
proof -
  have "on_timer s k = s"
  proof (rule on_timer_idle)
    fix v assume "k < length (tasks s)"
    then have k: "k = 0 \<or> k = 1" using phases_length [OF assms(1)] by auto
    then show "t_phase (tasks s ! k) \<noteq> InMethod v"
    proof
      assume "k = 0"
      then show ?thesis
        using phases_nth [OF assms(1), of 0] phases_length [OF assms(1)] assms(2) by simp
    next
      assume "k = 1"
      then show ?thesis
        using phases_nth [OF assms(1), of 1] phases_length [OF assms(1)] assms(3) by simp
    qed
  qed
  then show ?thesis by simp
qed

lemma greet_timers:
  "s = run init [greet] \<or> s = run init [greet, Timer 0] \<Longrightarrow>
   run s (map Timer ks) = run init [greet] \<or> run s (map Timer ks) = run init [greet, Timer 0]"
proof (induction ks arbitrary: s)
  case Nil
  then show ?case by (simp add: run_Nil)
next
  case (Cons k ks)
  have "step s (Timer k) = run init [greet] \<or> step s (Timer k) = run init [greet, Timer 0]"
    using Cons.prems
  proof
    assume s: "s = run init [greet]"
    show ?thesis
    proof (cases "k = 0")
      case True
      then show ?thesis using s run_snoc [of init "[greet]" "Timer 0"] by simp
    next
      case False
      then show ?thesis using s timer_idle_one [OF greet_phases(1), of k] by simp
    qed
  next
    assume s: "s = run init [greet, Timer 0]"
    then show ?thesis using timer_idle_one [OF greet_phases(2), of k] by simp
  qed
  then show ?case using Cons.IH [of "step s (Timer k)"] by (simp add: run_Cons)
qed

lemma after_both_step: "s \<in> after_both \<Longrightarrow> step s (Timer k) \<in> after_both"
proof -
  assume "s \<in> after_both"
  then consider
      (a) "s = run init [greet, emphasize]"
    | (b) "s = run init [greet, emphasize, Timer 0]"
    | (c) "s = run init [greet, Timer 0, emphasize]"
    | (d) "s = run init [greet, emphasize, Timer 0, Timer 1]"
    | (e) "s = run init [greet, Timer 0, emphasize, Timer 1]"
    by (auto simp: after_both_def)
  then show ?thesis
  proof cases
    case a
    show ?thesis
    proof (cases "k = 0")
      case True
      then show ?thesis using a run_snoc [of init "[greet, emphasize]" "Timer 0"]
        by (simp add: after_both_def)
    next
      case False
      then show ?thesis using a timer_idle_two [OF both_phases(1), of k]
        by (simp add: after_both_def)
    qed
  next
    case b
    show ?thesis
    proof (cases "k = 1")
      case True
      then show ?thesis using b run_snoc [of init "[greet, emphasize, Timer 0]" "Timer 1"]
        by (simp add: after_both_def)
    next
      case False
      then show ?thesis using b timer_idle_two [OF both_phases(2), of k]
        by (simp add: after_both_def)
    qed
  next
    case c
    show ?thesis
    proof (cases "k = 1")
      case True
      then show ?thesis using c run_snoc [of init "[greet, Timer 0, emphasize]" "Timer 1"]
        by (simp add: after_both_def)
    next
      case False
      then show ?thesis using c timer_idle_two [OF both_phases(3), of k]
        by (simp add: after_both_def)
    qed
  next
    case d
    then show ?thesis using timer_idle_two [OF both_phases(4), of k]
      by (simp add: after_both_def)
  next
    case e
    then show ?thesis using timer_idle_two [OF both_phases(5), of k]
      by (simp add: after_both_def)
  qed
qed

lemma after_both_timers: "s \<in> after_both \<Longrightarrow> run s (map Timer ks) \<in> after_both"
proof (induction ks arbitrary: s)
  case Nil
  then show ?case by (simp add: run_Nil)
next
  case (Cons k ks)
  have "step s (Timer k) \<in> after_both" using Cons.prems by (rule after_both_step)
  then have "run (step s (Timer k)) (map Timer ks) \<in> after_both" by (rule Cons.IH)
  then show ?case by (simp add: run_Cons)
qed

lemma after_both_final:
  "sent (run (run init [greet, emphasize]) [Timer 0, Timer 1]) = both_returns"
  "sent (run (run init [greet, emphasize, Timer 0]) [Timer 0, Timer 1]) = both_returns"
  "sent (run (run init [greet, Timer 0, emphasize]) [Timer 0, Timer 1]) = both_returns"
  "sent (run (run init [greet, emphasize, Timer 0, Timer 1]) [Timer 0, Timer 1]) = both_returns"
  "sent (run (run init [greet, Timer 0, emphasize, Timer 1]) [Timer 0, Timer 1]) = both_returns"
  by code_simp+

text \<open>
  Claim C1, as the code has it. Call 1 invokes \<^verbatim>\<open>makeGreeting("Alice")\<close>; Call 2, which
  invokes \<^verbatim>\<open>appendSuffix\<close> with \<^verbatim>\<open>[{resultOf: 1}, "!!!"]\<close>, arrives before or after the timer
  of the first has fired. Whichever timers fire in between and in whatever order, once the
  timers of both invocations have fired the worker has sent exactly two frames: the
  Return with answerId 1 and result \<^verbatim>\<open>Hello, Alice!\<close>, and the Return with answerId 2 and
  result \<^verbatim>\<open>Hello, Alice!!!!\<close>, the greeting with its own exclamation mark and the three of
  the suffix.
\<close>

theorem pipelined_greeting:
  "sent (run init (greet # map Timer ks @ emphasize # map Timer ks' @ [Timer 0, Timer 1])) =
     both_returns"
proof -
  let ?a = "run (run init [greet]) (map Timer ks)"
  have a: "?a = run init [greet] \<or> ?a = run init [greet, Timer 0]"
    by (rule greet_timers) simp
  have "step ?a emphasize \<in> after_both"
    using a
  proof
    assume "?a = run init [greet]"
    then show ?thesis using run_snoc [of init "[greet]" emphasize] by (simp add: after_both_def)
  next
    assume "?a = run init [greet, Timer 0]"
    then show ?thesis using run_snoc [of init "[greet, Timer 0]" emphasize]
      by (simp add: after_both_def)
  qed
  then have "run (step ?a emphasize) (map Timer ks') \<in> after_both"
    by (rule after_both_timers)
  then have "sent (run (run (step ?a emphasize) (map Timer ks')) [Timer 0, Timer 1]) = both_returns"
    using after_both_final by (auto simp: after_both_def)
  moreover have "run init (greet # map Timer ks @ emphasize # map Timer ks' @ [Timer 0, Timer 1]) =
      run (run (step ?a emphasize) (map Timer ks')) [Timer 0, Timer 1]"
    by (simp add: run_def)
  ultimately show ?thesis by simp
qed

theorem pipelined_greeting_witness:
  "map snd (sent (run init (greet # map Timer [] @ emphasize # map Timer [1, 0] @ [Timer 0, Timer 1]))) =
     [Return (JNum 1) (JStr ''Hello, Alice!''), Return (JNum 2) (JStr ''Hello, Alice!!!!'')]"
  using pipelined_greeting [of "[]" "[1, 0]"] by (simp add: both_returns_def)

theorem pipelined_greeting_counterexample:
  "map snd (sent (run init
     [Message (Some (call 1 ''makeGreeting'' [JStr ''Alice''])),
      Message (Some (call 2 ''appendSuffix'' [reference 1, JStr ''!!!''])), Timer 0, Timer 1])) =
     [Return (JNum 1) (JStr ''Hello, Alice!''), Return (JNum 2) (JStr ''Hello, Alice!!!!'')] \<and>
   Return (JNum 2) (JStr ''Hello, Alice!!!'') \<notin> set (map snd (sent (run init
     [Message (Some (call 1 ''makeGreeting'' [JStr ''Alice''])),
      Message (Some (call 2 ''appendSuffix'' [reference 1, JStr ''!!!''])), Timer 0, Timer 1])))"
  by code_simp

section \<open>Registration comes first\<close>

lemma primitive_printable: "\<not> is_object v \<Longrightarrow> \<exists>x. js_to_string v = Inr x"
  by (cases v) simp_all

lemma lookup_ref_own_key:
  "\<not> is_object v \<Longrightarrow> lookup_ref T v = map_of T (own_key n v)"
  by (simp add: lookup_ref_def own_key_def)

lemma maybeResolveParam_registered:
  assumes "is_reference p" and "lookup_ref T (field ''resultOf'' p) \<noteq> None"
  shows "fst (maybeResolveParam T p) \<noteq> Rejected e"
proof -
  have "\<not> is_object (field ''resultOf'' p)"
    using assms(2) by (auto simp: lookup_ref_def split: if_splits)
  then obtain x where "js_to_string (field ''resultOf'' p) = Inr x"
    using primitive_printable by blast
  then show ?thesis using assms
    by (auto simp: maybeResolveParam_def Let_def split: promise_state.splits if_splits)
qed

text \<open>
  Claim C2. For every call frame whose id is a primitive value and whose method has a
  string form, the step that receives the frame is the rest of the listener, parameter
  resolution included, run in a state whose table has the id already. The id is then found
  in every later state of the connection, so a parameter \<^verbatim>\<open>{resultOf: id}\<close> of any later
  call, whenever it arrives, is never rejected as a reference to an unknown call.
\<close>

theorem registered_before_resolution:
  assumes "field ''type'' msg = JStr ''call''"
      and "\<not> is_object (field ''questionId'' msg)"
      and "js_to_string (field ''method'' msg) = Inr m"
      and "is_reference p" and "field ''resultOf'' p = field ''questionId'' msg"
  shows "step s (Message (Some msg)) =
           resolve_and_run
             (s\<lparr>questionsInFlight :=
                  register (length (tasks s)) (field ''questionId'' msg) (questionsInFlight s)\<rparr>)
             (field ''questionId'' msg) (field ''method'' msg) (field ''params'' msg) \<and>
         lookup_ref (register (length (tasks s)) (field ''questionId'' msg) (questionsInFlight s))
           (field ''questionId'' msg) \<noteq> None \<and>
         lookup_ref (questionsInFlight (run (step s (Message (Some msg))) es))
           (field ''questionId'' msg) \<noteq> None \<and>
         fst (maybeResolveParam (questionsInFlight (run (step s (Message (Some msg))) es)) p)
           \<noteq> Rejected e"
proof -
  let ?q = "field ''questionId'' msg"
  let ?n = "length (tasks s)"
  let ?s0 = "s\<lparr>questionsInFlight := register ?n ?q (questionsInFlight s)\<rparr>"
  let ?s1 = "on_message s (Some msg)"
  obtain x where x: "js_to_string ?q = Inr x"
    using primitive_printable [OF assms(2)] by blast
  have 1: "?s1 = resolve_and_run ?s0 ?q (field ''method'' msg) (field ''params'' msg)"
    by (simp add: on_message_call [OF assms(1)] on_call_def x assms(3))
  have 2: "lookup_ref (register ?n ?q (questionsInFlight s)) ?q \<noteq> None"
    using register_registered [of ?n ?q "questionsInFlight s"]
    by (simp add: lookup_ref_own_key [OF assms(2), of _ ?n])
  have "answers (questionsInFlight ?s0) (own_key ?n ?q) \<noteq> None"
    using register_registered [of ?n ?q "questionsInFlight s"] by (simp add: answers_None)
  then have "answers (questionsInFlight ?s1) (own_key ?n ?q) \<noteq> None"
    unfolding 1 resolve_and_run_table .
  then have "map_of (questionsInFlight ?s1) (own_key ?n ?q) \<noteq> None"
    by (simp add: answers_None)
  then have "map_of (questionsInFlight (run ?s1 es)) (own_key ?n ?q) \<noteq> None"
    by (rule run_registered)
  then have 3: "lookup_ref (questionsInFlight (run ?s1 es)) ?q \<noteq> None"
    by (simp add: lookup_ref_own_key [OF assms(2), of _ ?n])
  have 4: "fst (maybeResolveParam (questionsInFlight (run ?s1 es)) p) \<noteq> Rejected e"
    using maybeResolveParam_registered [OF assms(4)] 3 by (simp add: assms(5))
  show ?thesis using 1 2 3 4 by simp
qed

theorem registered_before_resolution_witness:
  "lookup_ref (questionsInFlight (run (step init (Message (Some (call 1 ''makeGreeting'' [JStr ''Alice''])))) []))
     (JNum 1) \<noteq> None \<and>
   fst (maybeResolveParam
          (questionsInFlight (run (step init (Message (Some (call 1 ''makeGreeting'' [JStr ''Alice''])))) []))
          (reference 1)) = Pending (KPrim (JNum 1))"
proof -
  let ?msg = "call 1 ''makeGreeting'' [JStr ''Alice'']"
  have 1: "field ''type'' ?msg = JStr ''call''" by (simp add: call_def)
  have q: "field ''questionId'' ?msg = JNum 1" by (simp add: call_def)
  have 2: "\<not> is_object (field ''questionId'' ?msg)" by (simp add: q)
  have 3: "js_to_string (field ''method'' ?msg) = Inr ''makeGreeting''" by (simp add: call_def)
  have 4: "is_reference (reference 1)" by (simp add: is_reference_def reference_def)
  have 5: "field ''resultOf'' (reference 1) = field ''questionId'' ?msg"
    by (simp add: reference_def q)
  have 6: "fst (maybeResolveParam
          (questionsInFlight (run (step init (Message (Some ?msg))) []))
          (reference 1)) = Pending (KPrim (JNum 1))"
    by code_simp
  show ?thesis
    using registered_before_resolution [OF 1 2 3 4 5, of init "[]"] 6 unfolding q by blast
qed

section \<open>Invocations that go on\<close>

lemma continue_task_static:
  assumes "continue_task i t = (t', now, later, calls)"
  shows "t_questionId t' = t_questionId t" "t_key t' = t_key t" "t_method t' = t_method t"
    "t_params t' = t_params t"
  using assms
  by (auto simp: continue_task_def Let_def split: phase.splits all_state.splits dispatched.splits)

lemma continue_task_noop:
  "(\<And>rs args. t_phase t = Resolving rs \<Longrightarrow> promise_all rs \<noteq> AllFulfilled args) \<Longrightarrow>
   continue_task i t = (t, [], [], [])"
  by (auto simp: continue_task_def split: phase.splits all_state.splits)

lemma continue_task_frames:
  assumes "continue_task i t = (t', now, later, calls)" and "x \<in> set now \<union> set later"
  shows "fst x = i" "\<exists>e. snd x = Exception (t_questionId t) e"
    "\<exists>rs args. t_phase t = Resolving rs \<and> promise_all rs = AllFulfilled args"
    "t_phase t' = Finished"
  using assms
  by (auto simp: continue_task_def Let_def split: phase.splits all_state.splits dispatched.splits)

lemma continue_task_calls:
  assumes "continue_task i t = (t', now, later, calls)" and "x \<in> set calls"
  shows "\<exists>rs args. t_phase t = Resolving rs \<and> promise_all rs = AllFulfilled args \<and>
           x = (i, t_method t, args)"
  using assms
  by (auto simp: continue_task_def Let_def split: phase.splits all_state.splits dispatched.splits if_splits)

lemma continue_task_phase:
  assumes "continue_task i t = (t', now, later, calls)"
  shows "t' = t \<or>
         (\<exists>rs args. t_phase t = Resolving rs \<and> promise_all rs = AllFulfilled args \<and>
            (t_phase t' = Finished \<or> (\<exists>v. t_phase t' = InMethod v)))"
  using assms
  by (auto simp: continue_task_def Let_def split: phase.splits all_state.splits dispatched.splits)

lemma continue_all_nth:
  "continue_all n ts = (ts', now, later, calls) \<Longrightarrow> i < length ts \<Longrightarrow>
   ts' ! i = fst (continue_task (n + i) (ts ! i))"
proof (induction ts arbitrary: n ts' now later calls i)
  case Nil
  then show ?case by simp
next
  case (Cons t ts)
  obtain t1 a b c where h: "continue_task n t = (t1, a, b, c)" by (cases "continue_task n t") auto
  obtain ts1 as bs cs where r: "continue_all (Suc n) ts = (ts1, as, bs, cs)"
    by (cases "continue_all (Suc n) ts") auto
  have ts': "ts' = t1 # ts1" using Cons.prems(1) by (simp add: h r)
  show ?case
  proof (cases i)
    case 0
    then show ?thesis by (simp add: ts' h)
  next
    case (Suc j)
    then have "ts1 ! j = fst (continue_task (Suc n + j) (ts ! j))"
      using Cons.IH [OF r, of j] Cons.prems(2) by simp
    then show ?thesis by (simp add: ts' Suc)
  qed
qed

lemma continue_all_frames:
  "continue_all n ts = (ts', now, later, calls) \<Longrightarrow> x \<in> set now \<union> set later \<Longrightarrow>
   \<exists>i t1 a b c. i < length ts \<and> continue_task (n + i) (ts ! i) = (t1, a, b, c) \<and>
      x \<in> set a \<union> set b"
proof (induction ts arbitrary: n ts' now later calls)
  case Nil
  then show ?case by simp
next
  case (Cons t ts)
  obtain t1 a b c where h: "continue_task n t = (t1, a, b, c)" by (cases "continue_task n t") auto
  obtain ts1 as bs cs where r: "continue_all (Suc n) ts = (ts1, as, bs, cs)"
    by (cases "continue_all (Suc n) ts") auto
  have "now = a @ as" "later = b @ bs" using Cons.prems(1) by (simp_all add: h r)
  then consider "x \<in> set a \<union> set b" | "x \<in> set as \<union> set bs" using Cons.prems(2) by auto
  then show ?case
  proof cases
    case 1
    then have "0 < length (t # ts) \<and> continue_task (n + 0) ((t # ts) ! 0) = (t1, a, b, c) \<and>
        x \<in> set a \<union> set b" using h by simp
    then show ?thesis by blast
  next
    case 2
    from Cons.IH [OF r 2] obtain i t2 a2 b2 c2 where
      "i < length ts" "continue_task (Suc n + i) (ts ! i) = (t2, a2, b2, c2)" "x \<in> set a2 \<union> set b2"
      by blast
    then have "Suc i < length (t # ts) \<and>
        continue_task (n + Suc i) ((t # ts) ! Suc i) = (t2, a2, b2, c2) \<and> x \<in> set a2 \<union> set b2"
      by simp
    then show ?thesis by blast
  qed
qed

lemma continue_all_calls:
  "continue_all n ts = (ts', now, later, calls) \<Longrightarrow> x \<in> set calls \<Longrightarrow>
   \<exists>i t1 a b c. i < length ts \<and> continue_task (n + i) (ts ! i) = (t1, a, b, c) \<and> x \<in> set c"
proof (induction ts arbitrary: n ts' now later calls)
  case Nil
  then show ?case by simp
next
  case (Cons t ts)
  obtain t1 a b c where h: "continue_task n t = (t1, a, b, c)" by (cases "continue_task n t") auto
  obtain ts1 as bs cs where r: "continue_all (Suc n) ts = (ts1, as, bs, cs)"
    by (cases "continue_all (Suc n) ts") auto
  have "calls = c @ cs" using Cons.prems(1) by (simp_all add: h r)
  then consider "x \<in> set c" | "x \<in> set cs" using Cons.prems(2) by auto
  then show ?case
  proof cases
    case 1
    then have "0 < length (t # ts) \<and> continue_task (n + 0) ((t # ts) ! 0) = (t1, a, b, c) \<and>
        x \<in> set c" using h by simp
    then show ?thesis by blast
  next
    case 2
    from Cons.IH [OF r 2] obtain i t2 a2 b2 c2 where
      "i < length ts" "continue_task (Suc n + i) (ts ! i) = (t2, a2, b2, c2)" "x \<in> set c2"
      by blast
    then have "Suc i < length (t # ts) \<and>
        continue_task (n + Suc i) ((t # ts) ! Suc i) = (t2, a2, b2, c2) \<and> x \<in> set c2"
      by simp
    then show ?thesis by blast
  qed
qed

lemma wake_task_static:
  "t_questionId (wake_task k v t) = t_questionId t" "t_key (wake_task k v t) = t_key t"
  "t_method (wake_task k v t) = t_method t" "t_params (wake_task k v t) = t_params t"
  by (simp_all add: wake_task_def split: phase.splits)

lemma wake_task_phase:
  "t_phase (wake_task k v t) =
     (case t_phase t of
        Resolving rs \<Rightarrow> Resolving (map (\<lambda>r. if r = Pending k then Fulfilled v else r) rs)
      | p \<Rightarrow> p)"
  by (simp add: wake_task_def split: phase.splits)

section \<open>The cases of a step\<close>

lemma on_timer_cases [case_names idle lost quiet woke]:
  obtains
    (idle) "on_timer s tid = s"
      and "\<And>v. tid < length (tasks s) \<Longrightarrow> t_phase (tasks s ! tid) \<noteq> InMethod v"
  | (lost) v where "tid < length (tasks s)" and "t_phase (tasks s ! tid) = InMethod v"
      and "map_of (questionsInFlight s) (t_key (tasks s ! tid)) = None"
      and "on_timer s tid = s\<lparr>tasks := (tasks s)[tid := (tasks s ! tid)\<lparr>t_phase := Finished\<rparr>]\<rparr>"
  | (quiet) v q where "tid < length (tasks s)" and "t_phase (tasks s ! tid) = InMethod v"
      and "map_of (questionsInFlight s) (t_key (tasks s ! tid)) = Some q"
      and "q_promise q \<noteq> PromisePending"
      and "on_timer s tid =
             s\<lparr>questionsInFlight :=
                 AList.update (t_key (tasks s ! tid)) (q\<lparr>q_done := True, q_result := v\<rparr>)
                   (questionsInFlight s),
               tasks := (tasks s)[tid := (tasks s ! tid)\<lparr>t_phase := Finished\<rparr>],
               sent := sent s @ [(tid, Return (t_questionId (tasks s ! tid)) v)]\<rparr>"
  | (woke) v q ts2 now later calls where "tid < length (tasks s)"
      and "t_phase (tasks s ! tid) = InMethod v"
      and "map_of (questionsInFlight s) (t_key (tasks s ! tid)) = Some q"
      and "q_promise q = PromisePending"
      and "continue_all 0 (map (wake_task (t_key (tasks s ! tid)) v)
             ((tasks s)[tid := (tasks s ! tid)\<lparr>t_phase := Finished\<rparr>])) = (ts2, now, later, calls)"
      and "on_timer s tid =
             s\<lparr>questionsInFlight :=
                 AList.update (t_key (tasks s ! tid))
                   (q\<lparr>q_done := True, q_result := v, q_promise := PromiseFulfilled v\<rparr>)
                   (questionsInFlight s),
               tasks := ts2,
               sent := sent s @ (tid, Return (t_questionId (tasks s ! tid)) v) # now @ later,
               invoked := invoked s @ calls\<rparr>"
proof (cases "tid < length (tasks s) \<and> (\<exists>v. t_phase (tasks s ! tid) = InMethod v)")
  case False
  then have "on_timer s tid = s"
    by (auto simp: on_timer_def Let_def split: phase.splits)
  then show ?thesis using False idle by blast
next
  case True
  then obtain v where lt: "tid < length (tasks s)" and ph: "t_phase (tasks s ! tid) = InMethod v"
    by blast
  let ?k = "t_key (tasks s ! tid)"
  show ?thesis
  proof (cases "map_of (questionsInFlight s) ?k")
    case None
    then have "on_timer s tid = s\<lparr>tasks := (tasks s)[tid := (tasks s ! tid)\<lparr>t_phase := Finished\<rparr>]\<rparr>"
      using lt ph by (simp add: on_timer_def Let_def finalizeQuestion_def)
    then show ?thesis using lost lt ph None by blast
  next
    case (Some q)
    show ?thesis
    proof (cases "q_promise q = PromisePending")
      case False
      then have "on_timer s tid =
             s\<lparr>questionsInFlight := AList.update ?k (q\<lparr>q_done := True, q_result := v\<rparr>)
                   (questionsInFlight s),
               tasks := (tasks s)[tid := (tasks s ! tid)\<lparr>t_phase := Finished\<rparr>],
               sent := sent s @ [(tid, Return (t_questionId (tasks s ! tid)) v)]\<rparr>"
        using lt ph Some by (simp add: on_timer_def Let_def finalizeQuestion_def)
      then show ?thesis using quiet lt ph Some False by blast
    next
      case True
      obtain ts2 now later calls where c: "continue_all 0 (map (wake_task ?k v)
             ((tasks s)[tid := (tasks s ! tid)\<lparr>t_phase := Finished\<rparr>])) = (ts2, now, later, calls)"
        by (metis prod_cases4)
      have "on_timer s tid =
             s\<lparr>questionsInFlight :=
                 AList.update ?k (q\<lparr>q_done := True, q_result := v, q_promise := PromiseFulfilled v\<rparr>)
                   (questionsInFlight s),
               tasks := ts2,
               sent := sent s @ (tid, Return (t_questionId (tasks s ! tid)) v) # now @ later,
               invoked := invoked s @ calls\<rparr>"
        using lt ph Some True c by (simp add: on_timer_def Let_def finalizeQuestion_def)
      then show ?thesis using woke lt ph Some True c by blast
    qed
  qed
qed

lemma resolve_and_run_cases [case_names no_array rejected resolved]:
  obtains
    (no_array) "\<And>ps. params \<noteq> JArr ps"
      and "resolve_and_run s questionId m params =
             s\<lparr>tasks := tasks s @
                 [\<lparr>t_questionId = questionId, t_key = own_key (length (tasks s)) questionId,
                   t_method = m, t_params = params, t_phase = Finished\<rparr>],
               sent := sent s @ [(length (tasks s), Exception questionId (map_error params))]\<rparr>"
  | (rejected) ps rs T2 e where "params = JArr ps"
      and "resolve_all (questionsInFlight s) ps = (rs, T2)" and "promise_all rs = AllRejected e"
      and "resolve_and_run s questionId m params =
             s\<lparr>questionsInFlight := T2,
               tasks := tasks s @
                 [\<lparr>t_questionId = questionId, t_key = own_key (length (tasks s)) questionId,
                   t_method = m, t_params = params, t_phase = Finished\<rparr>],
               sent := sent s @ [(length (tasks s), Exception questionId e)]\<rparr>"
  | (resolved) ps rs T2 t' now later calls where "params = JArr ps"
      and "resolve_all (questionsInFlight s) ps = (rs, T2)"
      and "\<And>e. promise_all rs \<noteq> AllRejected e"
      and "continue_task (length (tasks s))
             \<lparr>t_questionId = questionId, t_key = own_key (length (tasks s)) questionId,
              t_method = m, t_params = params, t_phase = Resolving rs\<rparr> = (t', now, later, calls)"
      and "resolve_and_run s questionId m params =
             s\<lparr>questionsInFlight := T2, tasks := tasks s @ [t'],
               sent := sent s @ now @ later, invoked := invoked s @ calls\<rparr>"
proof (cases "\<exists>ps. params = JArr ps")
  case False
  then have "resolve_and_run s questionId m params =
             s\<lparr>tasks := tasks s @
                 [\<lparr>t_questionId = questionId, t_key = own_key (length (tasks s)) questionId,
                   t_method = m, t_params = params, t_phase = Finished\<rparr>],
               sent := sent s @ [(length (tasks s), Exception questionId (map_error params))]\<rparr>"
    by (cases params) (simp_all add: resolve_and_run_def Let_def)
  then show ?thesis using no_array False by blast
next
  case True
  then obtain ps where ps: "params = JArr ps" by blast
  obtain rs T2 where r: "resolve_all (questionsInFlight s) ps = (rs, T2)"
    by (cases "resolve_all (questionsInFlight s) ps")
  show ?thesis
  proof (cases "\<exists>e. promise_all rs = AllRejected e")
    case True
    then obtain e where e: "promise_all rs = AllRejected e" by blast
    then have "resolve_and_run s questionId m params =
             s\<lparr>questionsInFlight := T2,
               tasks := tasks s @
                 [\<lparr>t_questionId = questionId, t_key = own_key (length (tasks s)) questionId,
                   t_method = m, t_params = params, t_phase = Finished\<rparr>],
               sent := sent s @ [(length (tasks s), Exception questionId e)]\<rparr>"
      by (simp add: resolve_and_run_def Let_def ps r)
    then show ?thesis using rejected ps r e by blast
  next
    case False
    obtain t' now later calls where c: "continue_task (length (tasks s))
             \<lparr>t_questionId = questionId, t_key = own_key (length (tasks s)) questionId,
              t_method = m, t_params = params, t_phase = Resolving rs\<rparr> = (t', now, later, calls)"
      by (metis prod_cases4)
    have "resolve_and_run s questionId m params =
             s\<lparr>questionsInFlight := T2, tasks := tasks s @ [t'],
               sent := sent s @ now @ later, invoked := invoked s @ calls\<rparr>"
      using False c by (cases "promise_all rs") (simp_all add: resolve_and_run_def Let_def ps r)
    then show ?thesis using resolved ps r False c by blast
  qed
qed

lemma on_message_cases [case_names ignored undecodable called]:
  obtains
    (ignored) "on_message s d = s\<lparr>tasks := tasks s @ [idle]\<rparr>"
      and "\<And>msg x y. d = Some msg \<Longrightarrow> field ''type'' msg = JStr ''call'' \<Longrightarrow>
             js_to_string (field ''questionId'' msg) = Inr x \<Longrightarrow>
             js_to_string (field ''method'' msg) = Inr y \<Longrightarrow> False"
  | (undecodable) "d = None"
      and "on_message s d =
             s\<lparr>tasks := tasks s @ [idle],
               sent := sent s @ [(length (tasks s), Exception (JNum 0) ''Invalid JSON'')]\<rparr>"
  | (called) msg x y where "d = Some msg" and "field ''type'' msg = JStr ''call''"
      and "js_to_string (field ''questionId'' msg) = Inr x"
      and "js_to_string (field ''method'' msg) = Inr y"
      and "on_message s d =
             resolve_and_run
               (s\<lparr>questionsInFlight :=
                    register (length (tasks s)) (field ''questionId'' msg) (questionsInFlight s)\<rparr>)
               (field ''questionId'' msg) (field ''method'' msg) (field ''params'' msg)"
proof (cases d)
  case None
  then show ?thesis using undecodable by (simp add: on_message_def)
next
  case (Some msg)
  show ?thesis
  proof (cases "field ''type'' msg = JStr ''call'' \<and>
      (\<exists>x. js_to_string (field ''questionId'' msg) = Inr x) \<and>
      (\<exists>y. js_to_string (field ''method'' msg) = Inr y)")
    case True
    then show ?thesis using called [of msg] Some
      by (auto simp: on_message_call on_call_def)
  next
    case False
    then have "on_message s d = s\<lparr>tasks := tasks s @ [idle]\<rparr>"
      using Some by (auto simp: on_message_def on_call_def split: sum.splits)
    then show ?thesis using ignored False Some by auto
  qed
qed

section \<open>What every step preserves\<close>

lemma woken_nth:
  assumes "continue_all 0 (map (wake_task k v) ts1) = (ts2, now, later, calls)" and "i < length ts1"
  shows "ts2 ! i = fst (continue_task i (wake_task k v (ts1 ! i)))" and "length ts2 = length ts1"
  using continue_all_nth [OF assms(1), of i] continue_all_length [OF assms(1)] assms(2) by simp_all

lemma woken_finished:
  assumes "t_phase t = Finished \<or> t_phase t = InMethod u"
  shows "continue_task i (wake_task k v t) = (t, [], [], [])"
proof -
  have "wake_task k v t = t" using assms by (auto simp: wake_task_def)
  moreover have "continue_task i t = (t, [], [], [])"
    using assms by (intro continue_task_noop) auto
  ultimately show ?thesis by simp
qed

lemma woken_frames:
  assumes "continue_all 0 (map (wake_task k v) ts1) = (ts2, now, later, calls)"
    and "x \<in> set now \<union> set later"
  shows "fst x < length ts1 \<and> (\<exists>rs. t_phase (ts1 ! fst x) = Resolving rs) \<and>
         (\<exists>e. snd x = Exception (t_questionId (ts1 ! fst x)) e) \<and> t_phase (ts2 ! fst x) = Finished"
proof -
  from continue_all_frames [OF assms] obtain i t1 a b c where
    i: "i < length ts1" and c: "continue_task i (wake_task k v (ts1 ! i)) = (t1, a, b, c)"
    and x: "x \<in> set a \<union> set b" by auto
  note f = continue_task_frames [OF c x]
  have "\<exists>rs. t_phase (ts1 ! i) = Resolving rs"
    using f(3) by (auto simp: wake_task_phase split: phase.splits)
  moreover have "ts2 ! i = t1" using woken_nth(1) [OF assms(1) i] c by simp
  ultimately show ?thesis using f i by (simp add: wake_task_static)
qed

lemma woken_calls:
  assumes "continue_all 0 (map (wake_task k v) ts1) = (ts2, now, later, calls)"
    and "x \<in> set calls"
  shows "fst x < length ts1 \<and> (\<exists>rs. t_phase (ts1 ! fst x) = Resolving rs)"
proof -
  from continue_all_calls [OF assms] obtain i t1 a b c where
    i: "i < length ts1" and c: "continue_task i (wake_task k v (ts1 ! i)) = (t1, a, b, c)"
    and x: "x \<in> set c" by auto
  from continue_task_calls [OF c x] have "\<exists>rs. t_phase (ts1 ! i) = Resolving rs" "fst x = i"
    by (auto simp: wake_task_phase split: phase.splits)
  then show ?thesis using i by simp
qed

lemma resolve_and_run_effect:
  "\<exists>t new calls.
     tasks (resolve_and_run s q m p) = tasks s @ [t] \<and>
     sent (resolve_and_run s q m p) = sent s @ new \<and>
     invoked (resolve_and_run s q m p) = invoked s @ calls \<and>
     (\<forall>x\<in>set new. fst x = length (tasks s)) \<and> (\<forall>x\<in>set calls. fst x = length (tasks s))"
proof (cases rule: resolve_and_run_cases [where s = s and questionId = q and m = m and params = p])
  case no_array
  then show ?thesis by simp
next
  case (rejected ps rs T2 e)
  then show ?thesis by simp
next
  case (resolved ps rs T2 t' now later calls)
  have "\<forall>x\<in>set (now @ later). fst x = length (tasks s)"
    using continue_task_frames(1) [OF resolved(4)] by auto
  moreover have "\<forall>x\<in>set calls. fst x = length (tasks s)"
    using continue_task_calls [OF resolved(4)] by auto
  ultimately show ?thesis unfolding resolved(5) by simp
qed

lemma on_message_effect:
  "\<exists>t new calls.
     tasks (on_message s d) = tasks s @ [t] \<and>
     sent (on_message s d) = sent s @ new \<and>
     invoked (on_message s d) = invoked s @ calls \<and>
     (\<forall>x\<in>set new. fst x = length (tasks s)) \<and> (\<forall>x\<in>set calls. fst x = length (tasks s))"
proof (cases s d rule: on_message_cases)
  case ignored
  then show ?thesis by simp
next
  case undecodable
  then show ?thesis by simp
next
  case (called msg x y)
  show ?thesis unfolding called(5)
    using resolve_and_run_effect [of "s\<lparr>questionsInFlight :=
        register (length (tasks s)) (field ''questionId'' msg) (questionsInFlight s)\<rparr>"
        "field ''questionId'' msg" "field ''method'' msg" "field ''params'' msg"]
    by simp
qed

lemma on_timer_effect:
  "length (tasks (on_timer s tid)) = length (tasks s) \<and>
   (\<forall>i<length (tasks s). t_phase (tasks s ! i) = Finished \<longrightarrow>
      tasks (on_timer s tid) ! i = tasks s ! i) \<and>
   (\<exists>new calls.
      sent (on_timer s tid) = sent s @ new \<and> invoked (on_timer s tid) = invoked s @ calls \<and>
      (\<forall>x\<in>set new. fst x < length (tasks s) \<and> t_phase (tasks s ! fst x) \<noteq> Finished) \<and>
      (\<forall>x\<in>set calls. fst x < length (tasks s) \<and> t_phase (tasks s ! fst x) \<noteq> Finished))"
proof (cases s tid rule: on_timer_cases)
  case idle
  then show ?thesis by simp
next
  case (lost v)
  then show ?thesis by (auto simp: nth_list_update)
next
  case (quiet v q)
  then show ?thesis by (auto simp: nth_list_update)
next
  case (woke v q ts2 now later calls)
  let ?ts1 = "(tasks s)[tid := (tasks s ! tid)\<lparr>t_phase := Finished\<rparr>]"
  have len: "length ts2 = length (tasks s)" using continue_all_length [OF woke(5)] by simp
  have fin: "\<forall>i<length (tasks s). t_phase (tasks s ! i) = Finished \<longrightarrow> ts2 ! i = tasks s ! i"
  proof (intro allI impI)
    fix i assume i: "i < length (tasks s)" and f: "t_phase (tasks s ! i) = Finished"
    have ne: "i \<noteq> tid" using f woke(2) by auto
    then have "?ts1 ! i = tasks s ! i" by simp
    then show "ts2 ! i = tasks s ! i"
      using woken_nth(1) [OF woke(5), of i] i f woken_finished [of "tasks s ! i"] by simp
  qed
  have fr: "\<forall>x\<in>set (now @ later). fst x < length (tasks s) \<and> t_phase (tasks s ! fst x) \<noteq> Finished"
  proof
    fix x assume "x \<in> set (now @ later)"
    then have x: "fst x < length ?ts1 \<and> (\<exists>rs. t_phase (?ts1 ! fst x) = Resolving rs)"
      using woken_frames [OF woke(5), of x] by auto
    then have "fst x \<noteq> tid" by auto
    then show "fst x < length (tasks s) \<and> t_phase (tasks s ! fst x) \<noteq> Finished"
      using x by auto
  qed
  have ca: "\<forall>x\<in>set calls. fst x < length (tasks s) \<and> t_phase (tasks s ! fst x) \<noteq> Finished"
  proof
    fix x assume "x \<in> set calls"
    then have x: "fst x < length ?ts1 \<and> (\<exists>rs. t_phase (?ts1 ! fst x) = Resolving rs)"
      using woken_calls [OF woke(5), of x] by auto
    then have "fst x \<noteq> tid" by auto
    then show "fst x < length (tasks s) \<and> t_phase (tasks s ! fst x) \<noteq> Finished"
      using x by auto
  qed
  have "\<forall>x\<in>set ((tid, Return (t_questionId (tasks s ! tid)) v) # now @ later).
      fst x < length (tasks s) \<and> t_phase (tasks s ! fst x) \<noteq> Finished"
    using fr woke(1,2) by auto
  then show ?thesis unfolding woke(6) using len fin ca by simp
qed

lemma step_tasks_length: "length (tasks s) \<le> length (tasks (step s e))"
proof (cases e)
  case (Message d)
  then show ?thesis using on_message_effect [of s d] by auto
next
  case (Timer tid)
  then show ?thesis using on_timer_effect [of s tid] by simp
qed

lemma step_finished:
  assumes "i < length (tasks s)" and "t_phase (tasks s ! i) = Finished"
  shows "tasks (step s e) ! i = tasks s ! i"
proof (cases e)
  case (Message d)
  then show ?thesis using on_message_effect [of s d] assms(1) by (auto simp: nth_append)
next
  case (Timer tid)
  then show ?thesis using on_timer_effect [of s tid] assms by simp
qed

lemma step_sent:
  "\<exists>new. sent (step s e) = sent s @ new \<and>
     (\<forall>x\<in>set new. fst x < length (tasks (step s e)) \<and>
        (fst x < length (tasks s) \<longrightarrow> t_phase (tasks s ! fst x) \<noteq> Finished))"
proof (cases e)
  case (Message d)
  then show ?thesis using on_message_effect [of s d] by auto
next
  case (Timer tid)
  then show ?thesis using on_timer_effect [of s tid] by auto
qed

lemma step_invoked:
  "\<exists>new. invoked (step s e) = invoked s @ new \<and>
     (\<forall>x\<in>set new. fst x < length (tasks (step s e)) \<and>
        (fst x < length (tasks s) \<longrightarrow> t_phase (tasks s ! fst x) \<noteq> Finished))"
proof (cases e)
  case (Message d)
  then show ?thesis using on_message_effect [of s d] by auto
next
  case (Timer tid)
  then show ?thesis using on_timer_effect [of s tid] by auto
qed

lemma well_tagged_step: "well_tagged s \<Longrightarrow> well_tagged (step s e)"
proof -
  assume w: "well_tagged s"
  obtain new where n: "sent (step s e) = sent s @ new"
    "\<forall>x\<in>set new. fst x < length (tasks (step s e))" using step_sent [of s e] by blast
  obtain new' where n': "invoked (step s e) = invoked s @ new'"
    "\<forall>x\<in>set new'. fst x < length (tasks (step s e))" using step_invoked [of s e] by blast
  show ?thesis
    using w n n' step_tasks_length [of s e] unfolding well_tagged_def by fastforce
qed

lemma well_tagged_run: "well_tagged s \<Longrightarrow> well_tagged (run s es)"
  by (induction es rule: rev_induct) (simp_all add: run_Nil run_snoc well_tagged_step)

lemma well_tagged_init: "well_tagged init"
  by (simp add: well_tagged_def init_def)

lemma finished_run:
  assumes "i < length (tasks s)" and "t_phase (tasks s ! i) = Finished"
  shows "i < length (tasks (run s es)) \<and> tasks (run s es) ! i = tasks s ! i \<and>
         filter (\<lambda>x. fst x = i) (sent (run s es)) = filter (\<lambda>x. fst x = i) (sent s) \<and>
         filter (\<lambda>x. fst x = i) (invoked (run s es)) = filter (\<lambda>x. fst x = i) (invoked s)"
proof (induction es rule: rev_induct)
  case Nil
  then show ?case using assms by (simp add: run_Nil)
next
  case (snoc e es)
  let ?r = "run s es"
  have i: "i < length (tasks ?r)" and fin: "t_phase (tasks ?r ! i) = Finished"
    using snoc assms(2) by simp_all
  obtain new where n: "sent (step ?r e) = sent ?r @ new"
    "\<forall>x\<in>set new. fst x < length (tasks ?r) \<longrightarrow> t_phase (tasks ?r ! fst x) \<noteq> Finished"
    using step_sent [of ?r e] by blast
  obtain new' where n': "invoked (step ?r e) = invoked ?r @ new'"
    "\<forall>x\<in>set new'. fst x < length (tasks ?r) \<longrightarrow> t_phase (tasks ?r ! fst x) \<noteq> Finished"
    using step_invoked [of ?r e] by blast
  have "filter (\<lambda>x. fst x = i) new = []" using n(2) i fin by (auto simp: filter_empty_conv)
  moreover have "filter (\<lambda>x. fst x = i) new' = []" using n'(2) i fin by (auto simp: filter_empty_conv)
  moreover have "tasks (step ?r e) ! i = tasks ?r ! i" using step_finished [OF i fin] .
  moreover have "i < length (tasks (step ?r e))" using i step_tasks_length [of ?r e] by simp
  ultimately show ?case using snoc n(1) n'(1) by (simp add: run_snoc)
qed

section \<open>A parameter that cannot be resolved\<close>

lemma maybeResolveParam_Rejected:
  "fst (maybeResolveParam T p) = Rejected e \<longleftrightarrow>
     is_reference p \<and>
     (js_to_string (field ''resultOf'' p) = Inl e \<or>
      (\<exists>x. js_to_string (field ''resultOf'' p) = Inr x \<and>
           lookup_ref T (field ''resultOf'' p) = None \<and> e = ''Reference to unknown call #'' @ x))"
  by (auto simp: maybeResolveParam_def Let_def
      split: sum.splits option.splits promise_state.splits if_splits)

lemma rejected_by_answers:
  assumes "answers T' = answers T"
  shows "fst (maybeResolveParam T' p) = Rejected e \<longleftrightarrow> fst (maybeResolveParam T p) = Rejected e"
proof -
  have "\<And>k. map_of T' k = None \<longleftrightarrow> map_of T k = None"
    using assms by (metis answers_None)
  then have "lookup_ref T' (field ''resultOf'' p) = None \<longleftrightarrow>
      lookup_ref T (field ''resultOf'' p) = None"
    by (simp add: lookup_ref_def)
  then show ?thesis unfolding maybeResolveParam_Rejected by simp
qed

lemma resolve_all_nth:
  "resolve_all T ps = (rs, T2) \<Longrightarrow>
   length rs = length ps \<and>
   (\<forall>i<length ps. \<exists>Ti. answers Ti = answers T \<and> rs ! i = fst (maybeResolveParam Ti (ps ! i)))"
proof (induction ps arbitrary: T rs T2)
  case Nil
  then show ?case by simp
next
  case (Cons p ps)
  obtain r T1 where 1: "maybeResolveParam T p = (r, T1)" by (cases "maybeResolveParam T p")
  obtain rs' T2' where 2: "resolve_all T1 ps = (rs', T2')" by (cases "resolve_all T1 ps")
  have rs: "rs = r # rs'" using Cons.prems by (simp add: 1 2)
  have T1: "answers T1 = answers T" using maybeResolveParam_answers [of T p] 1 by simp
  note ih = Cons.IH [OF 2]
  show ?case
  proof (intro conjI allI impI)
    show "length rs = length (p # ps)" using ih rs by simp
  next
    fix i assume i: "i < length (p # ps)"
    show "\<exists>Ti. answers Ti = answers T \<and> rs ! i = fst (maybeResolveParam Ti ((p # ps) ! i))"
    proof (cases i)
      case 0
      then have "answers T = answers T \<and> rs ! i = fst (maybeResolveParam T ((p # ps) ! i))"
        by (simp add: rs 1)
      then show ?thesis by blast
    next
      case (Suc j)
      then obtain Ti where "answers Ti = answers T1" "rs' ! j = fst (maybeResolveParam Ti (ps ! j))"
        using ih i by auto
      then have "answers Ti = answers T \<and> rs ! i = fst (maybeResolveParam Ti ((p # ps) ! i))"
        by (simp add: rs Suc T1)
      then show ?thesis by blast
    qed
  qed
qed

lemma resolve_all_rejected:
  assumes "resolve_all T ps = (rs, T2)" and "i < length ps"
  shows "rs ! i = Rejected e \<longleftrightarrow> fst (maybeResolveParam T (ps ! i)) = Rejected e"
proof -
  obtain Ti where "answers Ti = answers T" "rs ! i = fst (maybeResolveParam Ti (ps ! i))"
    using resolve_all_nth [OF assms(1)] assms(2) by blast
  then show ?thesis using rejected_by_answers [of Ti T] by simp
qed

lemma first_rejection:
  "Rejected e \<in> set rs \<Longrightarrow>
   \<exists>e' i. promise_all rs = AllRejected e' \<and> i < length rs \<and> rs ! i = Rejected e' \<and>
      (\<forall>j<i. \<forall>u. rs ! j \<noteq> Rejected u)"
proof (induction rs)
  case Nil
  then show ?case by simp
next
  case (Cons r rs)
  show ?case
  proof (cases r)
    case (Rejected u)
    then have "promise_all (r # rs) = AllRejected u \<and> 0 < length (r # rs) \<and>
        (r # rs) ! 0 = Rejected u \<and> (\<forall>j<0. \<forall>u. (r # rs) ! j \<noteq> Rejected u)" by simp
    then show ?thesis by blast
  next
    case (Fulfilled v)
    then have "Rejected e \<in> set rs" using Cons.prems by auto
    from Cons.IH [OF this] obtain e' i where
      h: "promise_all rs = AllRejected e'" "i < length rs" "rs ! i = Rejected e'"
        "\<forall>j<i. \<forall>u. rs ! j \<noteq> Rejected u" by blast
    have "\<forall>j<Suc i. \<forall>u. (r # rs) ! j \<noteq> Rejected u"
      using h(4) Fulfilled by (auto simp: nth_Cons split: nat.splits)
    then have "promise_all (r # rs) = AllRejected e' \<and> Suc i < length (r # rs) \<and>
        (r # rs) ! Suc i = Rejected e' \<and> (\<forall>j<Suc i. \<forall>u. (r # rs) ! j \<noteq> Rejected u)"
      using h Fulfilled by simp
    then show ?thesis by blast
  next
    case (Pending k)
    then have "Rejected e \<in> set rs" using Cons.prems by auto
    from Cons.IH [OF this] obtain e' i where
      h: "promise_all rs = AllRejected e'" "i < length rs" "rs ! i = Rejected e'"
        "\<forall>j<i. \<forall>u. rs ! j \<noteq> Rejected u" by blast
    have "\<forall>j<Suc i. \<forall>u. (r # rs) ! j \<noteq> Rejected u"
      using h(4) Pending by (auto simp: nth_Cons split: nat.splits)
    then have "promise_all (r # rs) = AllRejected e' \<and> Suc i < length (r # rs) \<and>
        (r # rs) ! Suc i = Rejected e' \<and> (\<forall>j<Suc i. \<forall>u. (r # rs) ! j \<noteq> Rejected u)"
      using h Pending by simp
    then show ?thesis by blast
  qed
qed

text \<open>
  Claim C8. In a state that the worker can reach, let a call arrive one of whose parameters
  cannot be resolved. Then the step sends exactly one frame, the Exception whose answerId
  is the id of that call and whose error is the message of the failure (of the first
  parameter that fails, if several do). Whatever happens afterwards, this stays the only
  frame that the invocation sends, and the invocation never calls a method.
\<close>

theorem failed_resolution_aborts:
  assumes "s = run init es0"
      and "field ''type'' msg = JStr ''call''"
      and "js_to_string (field ''questionId'' msg) = Inr x"
      and "js_to_string (field ''method'' msg) = Inr y"
      and "field ''params'' msg = JArr ps"
      and "T = register (length (tasks s)) (field ''questionId'' msg) (questionsInFlight s)"
      and "p \<in> set ps" and "fst (maybeResolveParam T p) = Rejected e"
  shows "\<exists>e' i. i < length ps \<and> fst (maybeResolveParam T (ps ! i)) = Rejected e' \<and>
           (\<forall>j<i. \<forall>u. fst (maybeResolveParam T (ps ! j)) \<noteq> Rejected u) \<and>
           sent (step s (Message (Some msg))) =
             sent s @ [(length (tasks s), Exception (field ''questionId'' msg) e')] \<and>
           (\<forall>es. filter (\<lambda>f. fst f = length (tasks s)) (sent (run (step s (Message (Some msg))) es)) =
                    [(length (tasks s), Exception (field ''questionId'' msg) e')] \<and>
                 filter (\<lambda>c. fst c = length (tasks s)) (invoked (run (step s (Message (Some msg))) es)) = [])"
proof -
  let ?q = "field ''questionId'' msg" and ?n = "length (tasks s)"
  let ?s0 = "s\<lparr>questionsInFlight := T\<rparr>"
  let ?s1 = "on_message s (Some msg)"
  obtain rs T2 where r: "resolve_all T ps = (rs, T2)" by (cases "resolve_all T ps")
  have len: "length rs = length ps" using resolve_all_nth [OF r] by simp
  obtain i0 where i0: "i0 < length ps" "ps ! i0 = p" using assms(7) by (auto simp: in_set_conv_nth)
  then have "rs ! i0 = Rejected e" using resolve_all_rejected [OF r, of i0 e] assms(8) by simp
  then have "Rejected e \<in> set rs" using i0(1) len by (metis nth_mem)
  from first_rejection [OF this] obtain e' i where
    f: "promise_all rs = AllRejected e'" "i < length rs" "rs ! i = Rejected e'"
       "\<forall>j<i. \<forall>u. rs ! j \<noteq> Rejected u" by blast
  have a: "fst (maybeResolveParam T (ps ! i)) = Rejected e'"
    using resolve_all_rejected [OF r, of i e'] f(2,3) len by simp
  have b: "\<forall>j<i. \<forall>u. fst (maybeResolveParam T (ps ! j)) \<noteq> Rejected u"
  proof (intro allI impI)
    fix j u assume "j < i"
    then show "fst (maybeResolveParam T (ps ! j)) \<noteq> Rejected u"
      using resolve_all_rejected [OF r, of j u] f(2,4) len by simp
  qed
  have s1: "?s1 = resolve_and_run ?s0 ?q (field ''method'' msg) (JArr ps)"
    by (simp add: on_message_call [OF assms(2)] on_call_def assms(3,4,5,6))
  have s1': "?s1 = ?s0\<lparr>questionsInFlight := T2,
       tasks := tasks s @ [\<lparr>t_questionId = ?q, t_key = own_key ?n ?q,
                            t_method = field ''method'' msg, t_params = JArr ps, t_phase = Finished\<rparr>],
       sent := sent s @ [(?n, Exception ?q e')]\<rparr>"
    unfolding s1 by (simp add: resolve_and_run_def Let_def r f(1))
  have c: "sent ?s1 = sent s @ [(?n, Exception ?q e')]" by (simp add: s1')
  have inv1: "invoked ?s1 = invoked s" by (simp add: s1')
  have fin: "?n < length (tasks ?s1)" "t_phase (tasks ?s1 ! ?n) = Finished"
    by (simp_all add: s1')
  have wt: "well_tagged s" using assms(1) well_tagged_init well_tagged_run by simp
  have none: "filter (\<lambda>f. fst f = ?n) (sent s) = []" "filter (\<lambda>c. fst c = ?n) (invoked s) = []"
    using wt by (auto simp: well_tagged_def filter_empty_conv)
  have d: "\<forall>es. filter (\<lambda>f. fst f = ?n) (sent (run ?s1 es)) = [(?n, Exception ?q e')] \<and>
                 filter (\<lambda>c. fst c = ?n) (invoked (run ?s1 es)) = []"
  proof
    fix es
    show "filter (\<lambda>f. fst f = ?n) (sent (run ?s1 es)) = [(?n, Exception ?q e')] \<and>
          filter (\<lambda>c. fst c = ?n) (invoked (run ?s1 es)) = []"
      using finished_run [OF fin, of es] none by (simp add: c inv1)
  qed
  have "i < length ps" using f(2) len by simp
  then show ?thesis using a b c d by auto
qed

theorem failed_resolution_aborts_witness:
  "\<exists>e'. sent (step (run init []) (Message (Some (call 2 ''appendSuffix'' [reference 7, JStr ''!'']))))
          = sent (run init []) @ [(0, Exception (JNum 2) e')] \<and>
        filter (\<lambda>c. fst c = 0)
          (invoked (run (step (run init []) (Message (Some (call 2 ''appendSuffix'' [reference 7, JStr ''!'']))))
                        [Message (Some (call 7 ''makeGreeting'' [JStr ''Alice''])), Timer 1])) = []"
proof -
  let ?msg = "call 2 ''appendSuffix'' [reference 7, JStr ''!'']"
  have 1: "field ''type'' ?msg = JStr ''call''" by (simp add: call_def)
  have q: "field ''questionId'' ?msg = JNum 2" by (simp add: call_def)
  have 2: "js_to_string (field ''questionId'' ?msg) = Inr ''2''"
    by (simp add: q show_int_def digits.simps)
  have 3: "js_to_string (field ''method'' ?msg) = Inr ''appendSuffix''" by (simp add: call_def)
  have 4: "field ''params'' ?msg = JArr [reference 7, JStr ''!'']" by (simp add: call_def)
  have 5: "reference 7 \<in> set [reference 7, JStr ''!'']" by simp
  have 6: "fst (maybeResolveParam
      (register (length (tasks (run init []))) (field ''questionId'' ?msg) (questionsInFlight (run init [])))
      (reference 7)) = Rejected ''Reference to unknown call #7''"
    by code_simp
  have n: "length (tasks (run init [])) = 0" by (simp add: run_def init_def)
  show ?thesis
    using failed_resolution_aborts [OF refl 1 2 3 4 refl 5 6] unfolding q n by blast
qed

section \<open>Promises of entries\<close>





lemma resolve_and_run_table_eq:
  "questionsInFlight (resolve_and_run s q m p) =
     (case p of JArr ps \<Rightarrow> snd (resolve_all (questionsInFlight s) ps) | _ \<Rightarrow> questionsInFlight s)"
proof (cases rule: resolve_and_run_cases [where s = s and questionId = q and m = m and params = p])
  case no_array
  then show ?thesis by (cases p) auto
next
  case (rejected ps rs T2 e)
  then show ?thesis by simp
next
  case (resolved ps rs T2 t' now later calls)
  then show ?thesis by simp
qed




section \<open>Fields of an invocation that never change\<close>




section \<open>Entries are done by a Return only\<close>






section \<open>A question whose call has failed\<close>









section \<open>Calls that depend on a failed call\<close>







section \<open>Parameters that are no references\<close>


















section \<open>Parameters that wait\<close>

lemma awaited_update:
  "awaited (AList.update k q T) k' \<longleftrightarrow>
     (if k' = k then q_promise q = PromisePending else awaited T k')"
  by (simp add: awaited_def update_conv')

lemma maybeResolveParam_awaited:
  "awaited T k \<Longrightarrow> awaited (snd (maybeResolveParam T p)) k"
  by (auto simp: maybeResolveParam_def Let_def awaited_update
      split: sum.splits option.splits promise_state.splits)

lemma maybeResolveParam_pending:
  "maybeResolveParam T p = (Pending k, T1) \<Longrightarrow> awaited T1 k"
  by (auto simp: maybeResolveParam_def Let_def awaited_update lookup_ref_def
      split: sum.splits option.splits promise_state.splits if_splits)
     (auto simp: awaited_def)

lemma resolve_all_awaited: "awaited T k \<Longrightarrow> awaited (snd (resolve_all T ps)) k"
proof (induction ps arbitrary: T)
  case Nil
  then show ?case by simp
next
  case (Cons p ps)
  obtain r T1 where 1: "maybeResolveParam T p = (r, T1)" by (cases "maybeResolveParam T p")
  obtain rs T2 where 2: "resolve_all T1 ps = (rs, T2)" by (cases "resolve_all T1 ps")
  have "awaited T1 k" using maybeResolveParam_awaited [OF Cons.prems, of p] 1 by simp
  then have "awaited T2 k" using Cons.IH [of T1] 2 by simp
  then show ?case by (simp add: 1 2)
qed

lemma resolve_all_pending:
  "resolve_all T ps = (rs, T2) \<Longrightarrow> Pending k \<in> set rs \<Longrightarrow> awaited T2 k"
proof (induction ps arbitrary: T rs T2)
  case Nil
  then show ?case by simp
next
  case (Cons p ps)
  obtain r T1 where 1: "maybeResolveParam T p = (r, T1)" by (cases "maybeResolveParam T p")
  obtain rs' T2' where 2: "resolve_all T1 ps = (rs', T2')" by (cases "resolve_all T1 ps")
  have rs: "rs = r # rs'" and T2: "T2 = T2'" using Cons.prems(1) by (simp_all add: 1 2)
  from Cons.prems(2) rs consider "r = Pending k" | "Pending k \<in> set rs'" by auto
  then show ?case
  proof cases
    case 1
    then have "awaited T1 k" using maybeResolveParam_pending \<open>maybeResolveParam T p = (r, T1)\<close> by simp
    then show ?thesis using resolve_all_awaited [of T1 k ps] 2 T2 by simp
  next
    case 2
    then show ?thesis using Cons.IH [OF \<open>resolve_all T1 ps = (rs', T2')\<close>] T2 by simp
  qed
qed

lemma register_keeps: "map_of T k = Some q \<Longrightarrow> map_of (register n v T) k = Some q"
  by (auto simp: register_def Let_def update_conv')

lemma register_awaited: "awaited T k \<Longrightarrow> awaited (register n v T) k"
  unfolding awaited_def using register_keeps by blast

lemma registered_answers: "map_of T k \<noteq> None \<longleftrightarrow> answers T k \<noteq> None"
  by (simp add: answers_None)

lemma resolve_all_registered:
  "map_of T k \<noteq> None \<Longrightarrow> map_of (snd (resolve_all T ps)) k \<noteq> None"
  using resolve_all_answers [of T ps] by (metis answers_None)

lemma task_ok_finished: "t_phase t = Finished \<Longrightarrow> task_ok T t"
  by (simp add: task_ok_def task_waits_def)

lemma task_waits_mono:
  assumes "task_waits T t"
    and "\<And>k. map_of T k \<noteq> None \<Longrightarrow> map_of T' k \<noteq> None"
    and "\<And>k. awaited T k \<Longrightarrow> awaited T' k"
  shows "task_waits T' t"
  using assms unfolding task_waits_def by blast

lemma task_ok_mono:
  assumes "task_ok T t"
    and "\<And>k. map_of T k \<noteq> None \<Longrightarrow> map_of T' k \<noteq> None"
    and "\<And>k. awaited T k \<Longrightarrow> awaited T' k"
  shows "task_ok T' t"
  using assms task_waits_mono [of T t T'] unfolding task_ok_def by blast

lemma continue_task_resolving:
  assumes "continue_task i t = (t', now, later, calls)" and "t_phase t' = Resolving rs"
  shows "t' = t \<and> (\<forall>args. promise_all rs \<noteq> AllFulfilled args)"
  using assms
  by (auto simp: continue_task_def Let_def split: phase.splits all_state.splits dispatched.splits)

lemma continue_task_ok:
  assumes "task_waits T t" and "continue_task i t = (t', now, later, calls)"
  shows "task_ok T t'"
proof (cases "\<exists>rs. t_phase t' = Resolving rs")
  case True
  then obtain rs where rs: "t_phase t' = Resolving rs" by blast
  then show ?thesis
    using continue_task_resolving [OF assms(2) rs] assms(1) unfolding task_ok_def by auto
next
  case False
  have "t_phase t \<noteq> Finished"
    if "t_phase t' \<noteq> Finished" using continue_task_phase [OF assms(2)] that by auto
  then have "t_phase t' \<noteq> Finished \<longrightarrow> map_of T (t_key t') \<noteq> None"
    using assms(1) continue_task_static(2) [OF assms(2)] unfolding task_waits_def by auto
  then show ?thesis using False unfolding task_ok_def task_waits_def by auto
qed

lemma resolve_and_run_ok:
  assumes "map_of (questionsInFlight s) (own_key (length (tasks s)) q) \<noteq> None"
  shows "\<exists>t. tasks (resolve_and_run s q m p) = tasks s @ [t] \<and>
           task_ok (questionsInFlight (resolve_and_run s q m p)) t"
proof (cases rule: resolve_and_run_cases [where s = s and questionId = q and m = m and params = p])
  case no_array
  then show ?thesis by (simp add: task_ok_finished)
next
  case (rejected ps rs T2 e)
  then show ?thesis by (simp add: task_ok_finished)
next
  case (resolved ps rs T2 t' now later calls)
  let ?t = "\<lparr>t_questionId = q, t_key = own_key (length (tasks s)) q, t_method = m,
             t_params = p, t_phase = Resolving rs\<rparr>"
  have "map_of T2 (own_key (length (tasks s)) q) \<noteq> None"
    using resolve_all_registered [OF assms, of ps] resolved(2) by simp
  moreover have "\<forall>k. Pending k \<in> set rs \<longrightarrow> awaited T2 k"
    using resolve_all_pending [OF resolved(2)] by blast
  ultimately have "task_waits T2 ?t" by (simp add: task_waits_def)
  then have "task_ok T2 t'" using continue_task_ok resolved(4) by blast
  then show ?thesis unfolding resolved(5) by simp
qed

lemma on_message_awaited:
  assumes "awaited (questionsInFlight s) k"
  shows "awaited (questionsInFlight (on_message s d)) k"
proof (cases s d rule: on_message_cases)
  case ignored
  then show ?thesis using assms by simp
next
  case undecodable
  then show ?thesis using assms by simp
next
  case (called msg x y)
  have "awaited (register (length (tasks s)) (field ''questionId'' msg) (questionsInFlight s)) k"
    using assms by (rule register_awaited)
  then show ?thesis unfolding called(5) resolve_and_run_table_eq
    by (cases "field ''params'' msg") (simp_all add: resolve_all_awaited)
qed

lemma on_message_ok:
  "\<exists>t. tasks (on_message s d) = tasks s @ [t] \<and> task_ok (questionsInFlight (on_message s d)) t"
proof (cases s d rule: on_message_cases)
  case ignored
  then show ?thesis by (simp add: task_ok_finished idle_def)
next
  case undecodable
  then show ?thesis by (simp add: task_ok_finished idle_def)
next
  case (called msg x y)
  show ?thesis unfolding called(5)
    using resolve_and_run_ok [of "s\<lparr>questionsInFlight :=
        register (length (tasks s)) (field ''questionId'' msg) (questionsInFlight s)\<rparr>"
        "field ''questionId'' msg" "field ''method'' msg" "field ''params'' msg"]
      register_registered [of "length (tasks s)" "field ''questionId'' msg" "questionsInFlight s"]
    by simp
qed

lemma waiting_ok_message: "waiting_ok s \<Longrightarrow> waiting_ok (on_message s d)"
proof -
  assume w: "waiting_ok s"
  obtain t where t: "tasks (on_message s d) = tasks s @ [t]"
    "task_ok (questionsInFlight (on_message s d)) t" using on_message_ok [of s d] by blast
  have "\<forall>i<length (tasks s). task_ok (questionsInFlight (on_message s d)) (tasks s ! i)"
  proof (intro allI impI)
    fix i assume "i < length (tasks s)"
    then have ok: "task_ok (questionsInFlight s) (tasks s ! i)"
      using w unfolding waiting_ok_def by blast
    show "task_ok (questionsInFlight (on_message s d)) (tasks s ! i)"
    proof (rule task_ok_mono [OF ok])
      fix k assume "map_of (questionsInFlight s) k \<noteq> None"
      then show "map_of (questionsInFlight (on_message s d)) k \<noteq> None"
        using step_registered [of s k "Message d"] by simp
    next
      fix k assume "awaited (questionsInFlight s) k"
      then show "awaited (questionsInFlight (on_message s d)) k" by (rule on_message_awaited)
    qed
  qed
  then show ?thesis unfolding waiting_ok_def using t by (auto simp: nth_append less_Suc_eq)
qed

lemma wake_task_waits:
  assumes "task_waits T t"
    and "\<And>k'. map_of T k' \<noteq> None \<Longrightarrow> map_of T' k' \<noteq> None"
    and "\<And>k'. k' \<noteq> k \<Longrightarrow> awaited T k' \<Longrightarrow> awaited T' k'"
  shows "task_waits T' (wake_task k v t)"
  unfolding task_waits_def
proof (intro conjI allI impI)
  assume "t_phase (wake_task k v t) \<noteq> Finished"
  then have "t_phase t \<noteq> Finished" by (auto simp: wake_task_phase split: phase.splits)
  then show "map_of T' (t_key (wake_task k v t)) \<noteq> None"
    using assms(1,2) unfolding task_waits_def by (simp add: wake_task_static)
next
  fix rs' k'
  assume ph: "t_phase (wake_task k v t) = Resolving rs'" and p: "Pending k' \<in> set rs'"
  then obtain rs where rs: "t_phase t = Resolving rs"
    "rs' = map (\<lambda>r. if r = Pending k then Fulfilled v else r) rs"
    by (auto simp: wake_task_phase split: phase.splits)
  then have "k' \<noteq> k \<and> Pending k' \<in> set rs" using p by (auto split: if_splits)
  then show "awaited T' k'" using assms(1,3) rs(1) unfolding task_waits_def by blast
qed

lemma waiting_ok_timer: "waiting_ok s \<Longrightarrow> waiting_ok (on_timer s tid)"
proof -
  assume w: "waiting_ok s"
  then have ok: "\<And>i. i < length (tasks s) \<Longrightarrow> task_ok (questionsInFlight s) (tasks s ! i)"
    unfolding waiting_ok_def by blast
  show ?thesis
  proof (cases s tid rule: on_timer_cases)
    case idle
    then show ?thesis using w by simp
  next
    case (lost v)
    show ?thesis unfolding waiting_ok_def lost(4)
      using ok lost(1) by (simp add: nth_list_update task_ok_finished)
  next
    case (quiet v q)
    let ?k = "t_key (tasks s ! tid)"
    let ?T' = "AList.update ?k (q\<lparr>q_done := True, q_result := v\<rparr>) (questionsInFlight s)"
    have na: "\<not> awaited (questionsInFlight s) ?k" using quiet(3,4) by (simp add: awaited_def)
    have mono: "task_ok ?T' t" if "task_ok (questionsInFlight s) t" for t
    proof (rule task_ok_mono [OF that])
      fix k assume "map_of (questionsInFlight s) k \<noteq> None"
      then show "map_of ?T' k \<noteq> None" by (simp add: update_conv')
    next
      fix k assume "awaited (questionsInFlight s) k"
      then show "awaited ?T' k" using na by (auto simp: awaited_update)
    qed
    show ?thesis unfolding waiting_ok_def quiet(5)
      using ok mono quiet(1) by (simp add: nth_list_update task_ok_finished)
  next
    case (woke v q ts2 now later calls)
    let ?k = "t_key (tasks s ! tid)"
    let ?T' = "AList.update ?k (q\<lparr>q_done := True, q_result := v, q_promise := PromiseFulfilled v\<rparr>)
                 (questionsInFlight s)"
    let ?ts1 = "(tasks s)[tid := (tasks s ! tid)\<lparr>t_phase := Finished\<rparr>]"
    have len: "length ts2 = length (tasks s)" using continue_all_length [OF woke(5)] by simp
    have "\<forall>i<length (tasks s). task_ok ?T' (ts2 ! i)"
    proof (intro allI impI)
      fix i assume i: "i < length (tasks s)"
      have "task_ok (questionsInFlight s) (?ts1 ! i)"
        using ok [OF i] woke(1) by (simp add: nth_list_update task_ok_finished)
      then have tw: "task_waits (questionsInFlight s) (?ts1 ! i)" by (simp add: task_ok_def)
      have "task_waits ?T' (wake_task ?k v (?ts1 ! i))"
      proof (rule wake_task_waits [OF tw])
        fix k' assume "map_of (questionsInFlight s) k' \<noteq> None"
        then show "map_of ?T' k' \<noteq> None" by (simp add: update_conv')
      next
        fix k' assume "k' \<noteq> ?k" "awaited (questionsInFlight s) k'"
        then show "awaited ?T' k'" by (simp add: awaited_update)
      qed
      moreover obtain t' a b c where c: "continue_task i (wake_task ?k v (?ts1 ! i)) = (t', a, b, c)"
        by (metis prod_cases4)
      ultimately have "task_ok ?T' t'" using continue_task_ok by blast
      moreover have "ts2 ! i = t'" using woken_nth(1) [OF woke(5), of i] i c by simp
      ultimately show "task_ok ?T' (ts2 ! i)" by simp
    qed
    then show ?thesis unfolding waiting_ok_def woke(6) using len by simp
  qed
qed

lemma waiting_ok_step: "waiting_ok s \<Longrightarrow> waiting_ok (step s e)"
  by (cases e) (simp_all add: waiting_ok_message waiting_ok_timer)

lemma waiting_ok_run: "waiting_ok s \<Longrightarrow> waiting_ok (run s es)"
  by (induction es rule: rev_induct) (simp_all add: run_Nil run_snoc waiting_ok_step)

lemma waiting_ok_init: "waiting_ok init"
  by (simp add: waiting_ok_def init_def)

section \<open>A failed call beside the others\<close>

lemma on_timer_fires:
  assumes "tid < length (tasks s)" and "t_phase (tasks s ! tid) = InMethod v"
    and "map_of (questionsInFlight s) (t_key (tasks s ! tid)) = Some q"
  shows "on_timer s tid =
     (if q_promise q = PromisePending then
        (case continue_all 0 (map (wake_task (t_key (tasks s ! tid)) v)
                ((tasks s)[tid := (tasks s ! tid)\<lparr>t_phase := Finished\<rparr>])) of
           (ts2, now, later, calls) \<Rightarrow>
             s\<lparr>questionsInFlight :=
                 AList.update (t_key (tasks s ! tid))
                   (q\<lparr>q_done := True, q_result := v, q_promise := PromiseFulfilled v\<rparr>)
                   (questionsInFlight s),
               tasks := ts2,
               sent := sent s @ (tid, Return (t_questionId (tasks s ! tid)) v) # now @ later,
               invoked := invoked s @ calls\<rparr>)
      else
        s\<lparr>questionsInFlight :=
            AList.update (t_key (tasks s ! tid)) (q\<lparr>q_done := True, q_result := v\<rparr>)
              (questionsInFlight s),
          tasks := (tasks s)[tid := (tasks s ! tid)\<lparr>t_phase := Finished\<rparr>],
          sent := sent s @ [(tid, Return (t_questionId (tasks s ! tid)) v)]\<rparr>)"
  using assms by (simp add: on_timer_def Let_def finalizeQuestion_def split: prod.splits)

lemma continue_all_noop:
  "(\<And>i. i < length ts \<Longrightarrow> continue_task (n + i) (ts ! i) = (ts ! i, [], [], [])) \<Longrightarrow>
   continue_all n ts = (ts, [], [], [])"
proof (induction ts arbitrary: n)
  case Nil
  then show ?case by simp
next
  case (Cons t ts)
  have h: "continue_task n t = (t, [], [], [])" using Cons.prems [of 0] by simp
  have "continue_all (Suc n) ts = (ts, [], [], [])"
  proof (rule Cons.IH)
    fix i assume "i < length ts"
    then show "continue_task (Suc n + i) (ts ! i) = (ts ! i, [], [], [])"
      using Cons.prems [of "Suc i"] by simp
  qed
  then show ?case using h by simp
qed

lemma continue_all_snoc:
  assumes "continue_all n ts = (ts', now, later, calls)"
    and "continue_task (n + length ts) t = (t, [], [], [])"
  shows "continue_all n (ts @ [t]) = (ts' @ [t], now, later, calls)"
  using assms
proof (induction ts arbitrary: n ts' now later calls)
  case Nil
  then show ?case by simp
next
  case (Cons u us)
  obtain u1 a b c where h: "continue_task n u = (u1, a, b, c)" by (cases "continue_task n u") auto
  obtain us1 as bs cs where r: "continue_all (Suc n) us = (us1, as, bs, cs)"
    by (cases "continue_all (Suc n) us") auto
  have "continue_all (Suc n) (us @ [t]) = (us1 @ [t], as, bs, cs)"
    using Cons.IH [OF r] Cons.prems(2) by simp
  then show ?case using Cons.prems(1) h r by simp
qed

lemma wake_task_unawaited:
  assumes "\<And>rs. t_phase t = Resolving rs \<Longrightarrow> Pending k \<notin> set rs"
  shows "wake_task k v t = t"
proof (cases "t_phase t")
  case (Resolving rs)
  then have "map (\<lambda>r. if r = Pending k then Fulfilled v else r) rs = rs"
    using assms by (intro map_idI) auto
  then show ?thesis using Resolving by (simp add: wake_task_def)
qed (simp_all add: wake_task_def)

lemma unwoken:
  assumes "task_ok T t" and "\<not> awaited T k"
  shows "continue_task i (wake_task k v t) = (t, [], [], [])"
proof -
  have "wake_task k v t = t"
    using assms unfolding task_ok_def task_waits_def by (intro wake_task_unawaited) blast
  moreover have "continue_task i t = (t, [], [], [])"
    using assms(1) unfolding task_ok_def by (intro continue_task_noop) blast
  ultimately show ?thesis by simp
qed

lemma unwoken_all:
  assumes "\<forall>x\<in>set xs. task_ok T x" and "\<not> awaited T k"
  shows "continue_all n (map (wake_task k v) xs) = (xs, [], [], [])"
proof -
  have same: "wake_task k v x = x" if "x \<in> set xs" for x
    using assms that unfolding task_ok_def task_waits_def by (intro wake_task_unawaited) blast
  then have "map (wake_task k v) xs = xs" by (intro map_idI)
  moreover have "continue_all n xs = (xs, [], [], [])"
  proof (rule continue_all_noop)
    fix i assume "i < length xs"
    then have "task_ok T (xs ! i)" using assms(1) by simp
    then show "continue_task (n + i) (xs ! i) = (xs ! i, [], [], [])"
      unfolding task_ok_def by (intro continue_task_noop) blast
  qed
  ultimately show ?thesis by simp
qed

lemma shadows_timer:
  assumes sh: "shadows n a b" and w: "waiting_ok a"
  shows "shadows n (on_timer a tid) (on_timer b tid)"
proof -
  obtain t where len: "length (tasks a) = n" and tb: "tasks b = tasks a @ [t]"
    and tf: "t_phase t = Finished"
    and se: "filter (\<lambda>f. fst f \<noteq> n) (sent b) = sent a"
    and iv: "filter (\<lambda>c. fst c \<noteq> n) (invoked b) = invoked a"
    and an: "\<And>k. answers (questionsInFlight a) k \<noteq> None \<Longrightarrow>
               answers (questionsInFlight b) k = answers (questionsInFlight a) k"
    and aw: "\<And>k. awaited (questionsInFlight a) k \<Longrightarrow> awaited (questionsInFlight b) k"
    using sh unfolding shadows_def by blast
  have ok: "\<And>i. i < n \<Longrightarrow> task_ok (questionsInFlight a) (tasks a ! i)"
    using w len unfolding waiting_ok_def by blast
  show ?thesis
  proof (cases a tid rule: on_timer_cases)
    case idle
    have "on_timer b tid = b"
    proof (rule on_timer_idle)
      fix v assume "tid < length (tasks b)"
      then have "tid < n \<or> tid = n" using tb len by auto
      then show "t_phase (tasks b ! tid) \<noteq> InMethod v"
        using idle(2) tb len tf by (auto simp: nth_append)
    qed
    then show ?thesis using sh idle(1) by simp
  next
    case (lost v)
    then have False using ok [of tid] len unfolding task_ok_def task_waits_def by auto
    then show ?thesis ..
  next
    case (quiet v q)
    let ?k = "t_key (tasks a ! tid)"
    let ?ts1 = "(tasks a)[tid := (tasks a ! tid)\<lparr>t_phase := Finished\<rparr>]"
    have tidn: "tid < n" using quiet(1) len by simp
    have btid: "tid < length (tasks b)" "tasks b ! tid = tasks a ! tid"
      using tb tidn len by (simp_all add: nth_append)
    have "answers (questionsInFlight a) ?k \<noteq> None" using quiet(3) by (simp add: answers_def)
    then have "answers (questionsInFlight b) ?k = answers (questionsInFlight a) ?k" by (rule an)
    then obtain q' where q': "map_of (questionsInFlight b) ?k = Some q'"
      using quiet(3) by (auto simp: answers_def)
    have na: "\<not> awaited (questionsInFlight a) ?k" using quiet(3,4) by (simp add: awaited_def)
    have ts1b: "(tasks b)[tid := (tasks b ! tid)\<lparr>t_phase := Finished\<rparr>] = ?ts1 @ [t]"
      using tb tidn len btid by (simp add: list_update_append)
    have "\<forall>x\<in>set (?ts1 @ [t]). task_ok (questionsInFlight a) x"
    proof
      fix x assume "x \<in> set (?ts1 @ [t])"
      then consider "x = t" | i where "i < n" "x = ?ts1 ! i"
        using len by (auto simp: in_set_conv_nth)
      then show "task_ok (questionsInFlight a) x"
      proof cases
        case 1
        then show ?thesis using tf by (simp add: task_ok_finished)
      next
        case 2
        then show ?thesis using ok [of i] tidn len
          by (cases "i = tid") (simp_all add: task_ok_finished)
      qed
    qed
    then have noop: "continue_all 0 (map (wake_task ?k v) (?ts1 @ [t])) = (?ts1 @ [t], [], [], [])"
      using unwoken_all na by blast
    have b': "on_timer b tid =
        b\<lparr>questionsInFlight :=
            AList.update ?k (q'\<lparr>q_done := True, q_result := v,
               q_promise := (if q_promise q' = PromisePending then PromiseFulfilled v else q_promise q')\<rparr>)
              (questionsInFlight b),
          tasks := ?ts1 @ [t],
          sent := sent b @ [(tid, Return (t_questionId (tasks a ! tid)) v)]\<rparr>"
      using on_timer_fires [of tid b v q'] btid quiet(2) q' ts1b noop by simp
    have "tid \<noteq> n" using tidn by simp
    then show ?thesis unfolding shadows_def quiet(5) b'
      using len tf se iv an aw na quiet(4)
      by (auto simp: answers_update awaited_update)
  next
    case (woke v q ts2 now later calls)
    let ?k = "t_key (tasks a ! tid)"
    let ?ts1 = "(tasks a)[tid := (tasks a ! tid)\<lparr>t_phase := Finished\<rparr>]"
    have tidn: "tid < n" using woke(1) len by simp
    have btid: "tid < length (tasks b)" "tasks b ! tid = tasks a ! tid"
      using tb tidn len by (simp_all add: nth_append)
    have "awaited (questionsInFlight a) ?k" using woke(3,4) by (simp add: awaited_def)
    then have "awaited (questionsInFlight b) ?k" by (rule aw)
    then obtain q' where q': "map_of (questionsInFlight b) ?k = Some q'"
      "q_promise q' = PromisePending" unfolding awaited_def by blast
    have ts1b: "(tasks b)[tid := (tasks b ! tid)\<lparr>t_phase := Finished\<rparr>] = ?ts1 @ [t]"
      using tb tidn len btid by (simp add: list_update_append)
    have wt: "wake_task ?k v t = t" using tf by (simp add: wake_task_def)
    have "continue_task (0 + length (map (wake_task ?k v) ?ts1)) t = (t, [], [], [])"
      using tf by (intro continue_task_noop) simp
    then have ca: "continue_all 0 (map (wake_task ?k v) (?ts1 @ [t])) = (ts2 @ [t], now, later, calls)"
      using continue_all_snoc [OF woke(5), of t] wt by simp
    have b': "on_timer b tid =
        b\<lparr>questionsInFlight :=
            AList.update ?k (q'\<lparr>q_done := True, q_result := v, q_promise := PromiseFulfilled v\<rparr>)
              (questionsInFlight b),
          tasks := ts2 @ [t],
          sent := sent b @ (tid, Return (t_questionId (tasks a ! tid)) v) # now @ later,
          invoked := invoked b @ calls\<rparr>"
      using on_timer_fires [of tid b v q'] btid woke(2) q' ts1b ca by simp
    have len2: "length ts2 = n" using continue_all_length [OF woke(5)] len by simp
    have "\<forall>x\<in>set (now @ later). fst x < n"
      using woken_frames [OF woke(5)] len by auto
    then have "\<forall>x\<in>set (now @ later). fst x \<noteq> n" by fastforce
    then have f1: "filter (\<lambda>f. fst f \<noteq> n) (now @ later) = now @ later"
      by (simp only: filter_id_conv)
    have "\<forall>x\<in>set calls. fst x < n" using woken_calls [OF woke(5)] len by auto
    then have "\<forall>x\<in>set calls. fst x \<noteq> n" by fastforce
    then have f2: "filter (\<lambda>c. fst c \<noteq> n) calls = calls" by (simp only: filter_id_conv)
    have "tid \<noteq> n" using tidn by simp
    then show ?thesis unfolding shadows_def woke(6) b'
      using len2 tf se iv an aw f1 f2
      by (auto simp: answers_update awaited_update)
  qed
qed

lemma shadows_timers:
  "shadows n a b \<Longrightarrow> waiting_ok a \<Longrightarrow> shadows n (run a (map Timer ks)) (run b (map Timer ks))"
proof (induction ks arbitrary: a b)
  case Nil
  then show ?case by (simp add: run_Nil)
next
  case (Cons k ks)
  have "shadows n (on_timer a k) (on_timer b k)" using shadows_timer [OF Cons.prems] .
  moreover have "waiting_ok (on_timer a k)" using waiting_ok_timer [OF Cons.prems(2)] .
  ultimately have "shadows n (run (on_timer a k) (map Timer ks)) (run (on_timer b k) (map Timer ks))"
    by (rule Cons.IH)
  then show ?case by (simp add: run_Cons)
qed

lemma shadows_failed_call:
  assumes "well_tagged s"
    and "field ''type'' d = JStr ''call''"
    and "js_to_string (field ''questionId'' d) = Inr x"
    and "js_to_string (field ''method'' d) = Inr y"
    and "field ''params'' d = JArr ps"
    and "resolve_all (register (length (tasks s)) (field ''questionId'' d) (questionsInFlight s)) ps
           = (rs, T2)"
    and "promise_all rs = AllRejected e"
  shows "shadows (length (tasks s)) s (on_message s (Some d))"
    and "sent (on_message s (Some d)) =
           sent s @ [(length (tasks s), Exception (field ''questionId'' d) e)]"
    and "length (tasks s) < length (tasks (on_message s (Some d)))"
    and "t_phase (tasks (on_message s (Some d)) ! length (tasks s)) = Finished"
    and "invoked (on_message s (Some d)) = invoked s"
proof -
  let ?q = "field ''questionId'' d" and ?n = "length (tasks s)"
  let ?T = "register ?n ?q (questionsInFlight s)"
  let ?t = "\<lparr>t_questionId = ?q, t_key = own_key ?n ?q, t_method = field ''method'' d,
             t_params = JArr ps, t_phase = Finished\<rparr>"
  have s1: "on_message s (Some d) =
      s\<lparr>questionsInFlight := T2, tasks := tasks s @ [?t],
        sent := sent s @ [(?n, Exception ?q e)]\<rparr>"
    by (simp add: on_message_call [OF assms(2)] on_call_def resolve_and_run_def Let_def assms(3-7))
  show "sent (on_message s (Some d)) = sent s @ [(?n, Exception ?q e)]"
    and "?n < length (tasks (on_message s (Some d)))"
    and "t_phase (tasks (on_message s (Some d)) ! ?n) = Finished"
    and "invoked (on_message s (Some d)) = invoked s"
    by (simp_all add: s1)
  have "\<forall>f\<in>set (sent s). fst f \<noteq> ?n" "\<forall>c\<in>set (invoked s). fst c \<noteq> ?n"
    using assms(1) unfolding well_tagged_def by fastforce+
  then have f: "filter (\<lambda>f. fst f \<noteq> ?n) (sent s) = sent s"
    "filter (\<lambda>c. fst c \<noteq> ?n) (invoked s) = invoked s"
    by (simp_all only: filter_id_conv)
  have T2: "answers T2 = answers ?T" using resolve_all_answers [of ?T ps] assms(6) by simp
  have an: "\<forall>k. answers (questionsInFlight s) k \<noteq> None \<longrightarrow> answers T2 k = answers (questionsInFlight s) k"
    by (simp add: T2 register_answers answers_None)
  have aw: "\<forall>k. awaited (questionsInFlight s) k \<longrightarrow> awaited T2 k"
    using register_awaited [of "questionsInFlight s" _ ?n ?q] resolve_all_awaited [of ?T _ ps] assms(6)
    by auto
  show "shadows ?n s (on_message s (Some d))"
    unfolding shadows_def s1 using f an aw by simp
qed

lemma awaitResult_unknown:
  assumes "is_reference ref" and "js_to_string (field ''resultOf'' ref) = Inr sh"
    and "lookup_ref (callsInFlight c) (field ''resultOf'' ref) = None"
  shows "awaitResult c ref = (Thrown (''No call in flight for #'' @ sh), c)"
  using assms by (simp add: awaitResult_def Let_def)

text \<open>
  Claim C6. Let a call arrive, in a state that the worker can reach, with a parameter that
  refers to an id the table does not have. Resolving that parameter throws at once, with
  the table unchanged and nothing suspended, and the step sends exactly one frame: an
  Exception with the id of the referring call, whose error is \<^verbatim>\<open>Reference to unknown call\<close>
  followed by the id when no earlier parameter fails. Let then the timers of the other
  invocations fire in any order. Compared with the run in which the call never arrived,
  the worker sends the same frames for the other invocations, in the same order, and the
  one Exception besides; the other invocations are in the same states; and every question
  registered there has the same answer. On the page, \<^verbatim>\<open>awaitResult\<close> on a reference to an id
  that \<^verbatim>\<open>callsInFlight\<close> does not have throws at once and changes nothing.
\<close>

theorem unknown_reference_fails_alone:
  assumes "s = run init es0"
      and "field ''type'' d = JStr ''call''"
      and "js_to_string (field ''questionId'' d) = Inr x"
      and "js_to_string (field ''method'' d) = Inr y"
      and "field ''params'' d = JArr ps"
      and "T = register (length (tasks s)) (field ''questionId'' d) (questionsInFlight s)"
      and "i < length ps" and "is_reference (ps ! i)"
      and "js_to_string (field ''resultOf'' (ps ! i)) = Inr shown"
      and "lookup_ref T (field ''resultOf'' (ps ! i)) = None"
  shows "maybeResolveParam T (ps ! i) = (Rejected (''Reference to unknown call #'' @ shown), T) \<and>
         (\<exists>e. ((\<forall>j<i. \<forall>u. fst (maybeResolveParam T (ps ! j)) \<noteq> Rejected u) \<longrightarrow>
                   e = ''Reference to unknown call #'' @ shown) \<and>
              sent (step s (Message (Some d))) =
                sent s @ [(length (tasks s), Exception (field ''questionId'' d) e)] \<and>
              filter (\<lambda>f. fst f = length (tasks s))
                (sent (run (step s (Message (Some d))) (map Timer ks))) =
                [(length (tasks s), Exception (field ''questionId'' d) e)]) \<and>
         filter (\<lambda>f. fst f \<noteq> length (tasks s))
           (sent (run (step s (Message (Some d))) (map Timer ks))) = sent (run s (map Timer ks)) \<and>
         (\<exists>t. tasks (run (step s (Message (Some d))) (map Timer ks)) =
                 tasks (run s (map Timer ks)) @ [t] \<and> t_phase t = Finished) \<and>
         (\<forall>k. answers (questionsInFlight (run s (map Timer ks))) k \<noteq> None \<longrightarrow>
              answers (questionsInFlight (run (step s (Message (Some d))) (map Timer ks))) k =
              answers (questionsInFlight (run s (map Timer ks))) k) \<and>
         (is_reference ref \<and> js_to_string (field ''resultOf'' ref) = Inr sh \<and>
          lookup_ref (callsInFlight c) (field ''resultOf'' ref) = None \<longrightarrow>
            awaitResult c ref = (Thrown (''No call in flight for #'' @ sh), c))"
proof -
  let ?q = "field ''questionId'' d" and ?n = "length (tasks s)"
  let ?msg = "''Reference to unknown call #'' @ shown"
  let ?s1 = "on_message s (Some d)"
  have 1: "maybeResolveParam T (ps ! i) = (Rejected ?msg, T)"
    using assms(8,9,10) by (simp add: maybeResolveParam_def Let_def)
  obtain rs T2 where r: "resolve_all T ps = (rs, T2)" by (cases "resolve_all T ps")
  have len: "length rs = length ps" using resolve_all_nth [OF r] by simp
  have "rs ! i = Rejected ?msg" using resolve_all_rejected [OF r assms(7), of ?msg] 1 by simp
  then have "Rejected ?msg \<in> set rs" using assms(7) len by (metis nth_mem)
  from first_rejection [OF this] obtain e i' where
    f: "promise_all rs = AllRejected e" "i' < length rs" "rs ! i' = Rejected e"
       "\<forall>j<i'. \<forall>u. rs ! j \<noteq> Rejected u" by blast
  have e: "e = ?msg" if first: "\<forall>j<i. \<forall>u. fst (maybeResolveParam T (ps ! j)) \<noteq> Rejected u"
  proof -
    have "\<not> i' < i"
      using first resolve_all_rejected [OF r, of i' e] f(2,3) len by auto
    moreover have "\<not> i < i'" using f(4) \<open>rs ! i = Rejected ?msg\<close> by blast
    ultimately have "i' = i" by simp
    then show ?thesis using f(3) \<open>rs ! i = Rejected ?msg\<close> by simp
  qed
  have wt: "well_tagged s" using assms(1) well_tagged_init well_tagged_run by simp
  have wo: "waiting_ok s" using assms(1) waiting_ok_init waiting_ok_run by simp
  note fc = shadows_failed_call [OF wt assms(2,3,4,5) r [unfolded assms(6)] f(1)]
  have none: "filter (\<lambda>f. fst f = ?n) (sent s) = []"
    using wt by (auto simp: well_tagged_def filter_empty_conv)
  have 2: "filter (\<lambda>f. fst f = ?n) (sent (run ?s1 (map Timer ks))) = [(?n, Exception ?q e)]"
    using finished_run [OF fc(3,4), of "map Timer ks"] none by (simp add: fc(2))
  have "shadows ?n (run s (map Timer ks)) (run ?s1 (map Timer ks))"
    using shadows_timers [OF fc(1) wo] .
  then have 3: "filter (\<lambda>f. fst f \<noteq> ?n) (sent (run ?s1 (map Timer ks))) = sent (run s (map Timer ks))"
    and 4: "\<exists>t. tasks (run ?s1 (map Timer ks)) = tasks (run s (map Timer ks)) @ [t] \<and>
              t_phase t = Finished"
    and 5: "\<forall>k. answers (questionsInFlight (run s (map Timer ks))) k \<noteq> None \<longrightarrow>
              answers (questionsInFlight (run ?s1 (map Timer ks))) k =
              answers (questionsInFlight (run s (map Timer ks))) k"
    unfolding shadows_def by blast+
  have 6: "is_reference ref \<and> js_to_string (field ''resultOf'' ref) = Inr sh \<and>
          lookup_ref (callsInFlight c) (field ''resultOf'' ref) = None \<longrightarrow>
            awaitResult c ref = (Thrown (''No call in flight for #'' @ sh), c)"
    using awaitResult_unknown by blast
  have "(\<forall>j<i. \<forall>u. fst (maybeResolveParam T (ps ! j)) \<noteq> Rejected u) \<longrightarrow> e = ?msg"
    using e by blast
  then have 7: "\<exists>e. ((\<forall>j<i. \<forall>u. fst (maybeResolveParam T (ps ! j)) \<noteq> Rejected u) \<longrightarrow> e = ?msg) \<and>
      sent ?s1 = sent s @ [(?n, Exception ?q e)] \<and>
      filter (\<lambda>f. fst f = ?n) (sent (run ?s1 (map Timer ks))) = [(?n, Exception ?q e)]"
    using fc(2) 2 by blast
  show ?thesis using 1 7 3 4 5 6 by simp
qed

theorem unknown_reference_fails_alone_witness:
  "sent (step (run init [Message (Some (call 1 ''makeGreeting'' [JStr ''Alice'']))]) (Message (Some (call 2 ''appendSuffix'' [reference 7, JStr ''!''])))) =
     sent (run init [Message (Some (call 1 ''makeGreeting'' [JStr ''Alice'']))]) @ [(1, Exception (JNum 2) ''Reference to unknown call #7'')] \<and>
   filter (\<lambda>f. fst f \<noteq> 1)
     (sent (run (step (run init [Message (Some (call 1 ''makeGreeting'' [JStr ''Alice'']))]) (Message (Some (call 2 ''appendSuffix'' [reference 7, JStr ''!'']))))
        (map Timer [0]))) = sent (run (run init [Message (Some (call 1 ''makeGreeting'' [JStr ''Alice'']))]) (map Timer [0])) \<and>
   sent (run (run init [Message (Some (call 1 ''makeGreeting'' [JStr ''Alice'']))]) (map Timer [0])) = [(0, Return (JNum 1) (JStr ''Hello, Alice!''))]"
proof -
  let ?s = "run init [Message (Some (call 1 ''makeGreeting'' [JStr ''Alice'']))]"
  let ?d = "call 2 ''appendSuffix'' [reference 7, JStr ''!'']"
  have 2: "field ''type'' ?d = JStr ''call''" by (simp add: call_def)
  have q: "field ''questionId'' ?d = JNum 2" by (simp add: call_def)
  have 3: "js_to_string (field ''questionId'' ?d) = Inr ''2''"
    by (simp add: q show_int_def digits.simps)
  have 4: "js_to_string (field ''method'' ?d) = Inr ''appendSuffix''" by (simp add: call_def)
  have 5: "field ''params'' ?d = JArr [reference 7, JStr ''!'']" by (simp add: call_def)
  have 7: "0 < length [reference 7, JStr ''!'']" by simp
  have 8: "is_reference ([reference 7, JStr ''!''] ! 0)" by (simp add: is_reference_def reference_def)
  have 9: "js_to_string (field ''resultOf'' ([reference 7, JStr ''!''] ! 0)) = Inr ''7''"
    by (simp add: reference_def show_int_def digits.simps)
  have 10: "lookup_ref (register (length (tasks ?s)) (field ''questionId'' ?d) (questionsInFlight ?s))
      (field ''resultOf'' ([reference 7, JStr ''!''] ! 0)) = None"
    by code_simp
  have n: "length (tasks ?s) = 1" by code_simp
  have r: "sent (run ?s (map Timer [0])) = [(0, Return (JNum 1) (JStr ''Hello, Alice!''))]"
    by code_simp
  show ?thesis
    using unknown_reference_fails_alone [OF refl 2 3 4 5 refl 7 8 9 10, of "[0]"] r
    unfolding n q by auto
qed

end
